theory Spec2Isabelle
  imports Main
begin

section \<open>Parallel patterns of \<^verbatim>\<open>patterns.c\<close>: memory, failures and loops\<close>

text \<open>
  The library works on flat arrays of fixed-size elements through \<^verbatim>\<open>void *\<close>
  pointers and callbacks. An element (the macro \<^verbatim>\<open>TYPE\<close> of the absent header
  \<^verbatim>\<open>args.h\<close>) is a value of a type \<open>'a\<close> with a constant \<open>0\<close>, the
  element whose bytes are all zero (what \<^verbatim>\<open>memset(_, 0, sizeJob)\<close> and
  \<^verbatim>\<open>calloc\<close> produce); \<^verbatim>\<open>sizeJob\<close> is the size of one element, so that
  \<^verbatim>\<open>((TYPE *) p)[i]\<close> and \<^verbatim>\<open>((char *) p)[i * sizeJob]\<close> are the same element
  \<open>i\<close>, and \<^verbatim>\<open>memcpy(_, _, sizeJob)\<close> copies one element. A buffer is a list:
  its length is the number of elements the caller allocated, and the destination and
  the source of a call are two buffers. A callback
  \<^verbatim>\<open>worker(v1, v2)\<close> with \<^verbatim>\<open>v1 = op(v2)\<close> is a function \<open>'a \<Rightarrow> 'a\<close>, a
  callback \<^verbatim>\<open>worker(v1, v2, v3)\<close> with \<^verbatim>\<open>v1 = op(v2, v3)\<close> a function
  \<open>'a \<Rightarrow> 'a \<Rightarrow> 'a\<close>.

  A call ends in one of three failures or returns: a failed \<^verbatim>\<open>assert\<close>, the
  \<^verbatim>\<open>exit(1)\<close> of gather's index check, or an access outside a buffer (undefined
  behaviour in C, a failure of its own here, so that no theorem rests on what such an
  access reads or writes). The \<^verbatim>\<open>!= NULL\<close> assertions have no counterpart: a
  list is always a valid buffer.

  \<^verbatim>\<open>size_t\<close> values and the non-negative \<^verbatim>\<open>int\<close> counters (tile numbers,
  thread counts) are natural numbers; where the source leaves the range of the type
  (the cast \<^verbatim>\<open>(int) nJob\<close>, the subtraction \<^verbatim>\<open>nJob - 1\<close> in
  \<^verbatim>\<open>exclusiveScan\<close>) the wrap-around is written out, for a 64-bit
  \<^verbatim>\<open>size_t\<close> and a 32-bit \<^verbatim>\<open>int\<close>. An \<^verbatim>\<open>omp parallel for\<close> whose
  iterations touch disjoint slots is the loop in index order; the value of
  \<^verbatim>\<open>omp_get_max_threads()\<close> is the parameter \<open>maxThreads\<close>, which OpenMP
  keeps at 1 or more. \<^verbatim>\<open>sequentialPipeline\<close>, whose inner loop is bounded by its
  own counter, is left out.
\<close>

datatype failure = AssertionFailed | InvalidFilterIndex | OutOfBounds

definition load :: "'a list \<Rightarrow> nat \<Rightarrow> failure + 'a" where
  "load buf i = (if i < length buf then Inr (buf ! i) else Inl OutOfBounds)"

definition store :: "'a list \<Rightarrow> nat \<Rightarrow> 'a \<Rightarrow> failure + 'a list" where
  "store buf i v = (if i < length buf then Inr (buf[i := v]) else Inl OutOfBounds)"

text \<open>
  \<^verbatim>\<open>for (k = i; k < n; k++) body\<close> over a state \<open>st\<close>; the first failure of the
  body ends the loop.
\<close>

function for_range :: "nat \<Rightarrow> nat \<Rightarrow> (nat \<Rightarrow> 's \<Rightarrow> failure + 's) \<Rightarrow> 's \<Rightarrow> failure + 's" where
  "for_range i n body st =
     (if i < n
      then (case body i st of Inl e \<Rightarrow> Inl e | Inr st' \<Rightarrow> for_range (Suc i) n body st')
      else Inr st)"
  by pat_completeness auto
termination
  by (relation "measure (\<lambda>(i, n, body, st). n - i)") auto

declare for_range.simps [simp del]

subsection \<open>Utilities and tile arithmetic\<close>

definition min_sz :: "nat \<Rightarrow> nat \<Rightarrow> nat" where
  "min_sz a b = (if a < b then a else b)"

definition max_sz :: "nat \<Rightarrow> nat \<Rightarrow> nat" where
  "max_sz a b = (if a > b then a else b)"

definition getTileIndex :: "nat \<Rightarrow> nat \<Rightarrow> nat \<Rightarrow> nat" where
  "getTileIndex tile leftOverTiles tileSize =
     (if tile = 0 then 0
      else if tile < leftOverTiles then tile * (tileSize + 1)
      else leftOverTiles * (tileSize + 1) + (tile - leftOverTiles) * tileSize)"

text \<open>
  The local variables with which \<^verbatim>\<open>reduceImpl\<close> and \<^verbatim>\<open>scan\<close> cut
  \<open>nJob\<close> items into tiles for \<open>nThreads\<close> workers (\<^verbatim>\<open>scan\<close> does so for
  the \<open>nJob - 1\<close> items after the first).
\<close>

definition tileSize :: "nat \<Rightarrow> nat \<Rightarrow> nat" where
  "tileSize nJob nThreads = nJob div nThreads"

definition leftOverJobs :: "nat \<Rightarrow> nat \<Rightarrow> nat" where
  "leftOverJobs nJob nThreads = nJob mod nThreads"

definition nTiles :: "nat \<Rightarrow> nat \<Rightarrow> nat" where
  "nTiles nJob nThreads = min_sz nJob nThreads"

definition tileSizeWithOffset :: "nat \<Rightarrow> nat \<Rightarrow> nat \<Rightarrow> nat" where
  "tileSizeWithOffset nJob nThreads tile =
     tileSize nJob nThreads + (if tile < leftOverJobs nJob nThreads then 1 else 0)"

definition tileIndex :: "nat \<Rightarrow> nat \<Rightarrow> nat \<Rightarrow> nat" where
  "tileIndex nJob nThreads tile =
     getTileIndex tile (leftOverJobs nJob nThreads) (tileSize nJob nThreads)"

text \<open>The indices \<^verbatim>\<open>i + tileIndex\<close>, \<^verbatim>\<open>i < tileSizeWithOffset\<close>, that a tile visits.\<close>

definition tileRange :: "nat \<Rightarrow> nat \<Rightarrow> nat \<Rightarrow> nat set" where
  "tileRange nJob nThreads tile =
     {tileIndex nJob nThreads tile ..<
      tileIndex nJob nThreads tile + tileSizeWithOffset nJob nThreads tile}"

text \<open>
  The tile scheduler as the specification words it: the tile size and the leftover
  are taken against the number of tiles, not against the number of workers.
\<close>

definition spec_nTiles :: "nat \<Rightarrow> nat \<Rightarrow> nat" where
  "spec_nTiles totalItems workerCount = min totalItems workerCount"

definition spec_tileSize :: "nat \<Rightarrow> nat \<Rightarrow> nat" where
  "spec_tileSize totalItems workerCount = totalItems div spec_nTiles totalItems workerCount"

definition spec_leftover :: "nat \<Rightarrow> nat \<Rightarrow> nat" where
  "spec_leftover totalItems workerCount = totalItems mod spec_nTiles totalItems workerCount"

definition spec_tileLength :: "nat \<Rightarrow> nat \<Rightarrow> nat \<Rightarrow> nat" where
  "spec_tileLength totalItems workerCount t =
     (if t < spec_leftover totalItems workerCount
      then spec_tileSize totalItems workerCount + 1
      else spec_tileSize totalItems workerCount)"

definition spec_tileStart :: "nat \<Rightarrow> nat \<Rightarrow> nat \<Rightarrow> nat" where
  "spec_tileStart totalItems workerCount t =
     (if t < spec_leftover totalItems workerCount
      then t * (spec_tileSize totalItems workerCount + 1)
      else spec_leftover totalItems workerCount * (spec_tileSize totalItems workerCount + 1)
           + (t - spec_leftover totalItems workerCount) * spec_tileSize totalItems workerCount)"

subsection \<open>Reduce\<close>

text \<open>Sequencing of two steps of which the first may fail.\<close>

definition and_then :: "failure + 'a \<Rightarrow> ('a \<Rightarrow> failure + 'b) \<Rightarrow> failure + 'b" where
  "and_then m f = (case m of Inl e \<Rightarrow> Inl e | Inr x \<Rightarrow> f x)"

text \<open>
  \<^verbatim>\<open>reduceImpl(dest, src, nJob, sizeJob, worker, nThreads)\<close>. The result is the
  element the call leaves in \<^verbatim>\<open>*dest\<close>. \<open>phase1reduction\<close> is the temporary array
  of one zeroed slot per tile; the first loop folds every tile into its slot, the second
  folds the slots into the zeroed \<open>result\<close>.
\<close>

definition reduceImpl ::
  "('a::zero) list \<Rightarrow> nat \<Rightarrow> nat \<Rightarrow> ('a \<Rightarrow> 'a \<Rightarrow> 'a) \<Rightarrow> nat \<Rightarrow> failure + 'a" where
  "reduceImpl src nJob sizeJob worker nThreads =
     (if nThreads < 1 then Inl AssertionFailed
      else if nJob = 0 then Inr 0
      else
        and_then
          (for_range 0 (nTiles nJob nThreads)
             (\<lambda>tile phase1reduction.
                for_range 0 (tileSizeWithOffset nJob nThreads tile)
                  (\<lambda>i phase1reduction.
                     and_then (load phase1reduction tile) (\<lambda>v2.
                     and_then (load src (i + tileIndex nJob nThreads tile)) (\<lambda>v3.
                     store phase1reduction tile (worker v2 v3))))
                  phase1reduction)
             (replicate (nTiles nJob nThreads) 0))
          (\<lambda>phase1reduction.
             for_range 0 (nTiles nJob nThreads)
               (\<lambda>tile result. and_then (load phase1reduction tile) (\<lambda>v3. Inr (worker result v3)))
               0))"

definition reduce ::
  "nat \<Rightarrow> ('a::zero) list \<Rightarrow> nat \<Rightarrow> nat \<Rightarrow> ('a \<Rightarrow> 'a \<Rightarrow> 'a) \<Rightarrow> failure + 'a" where
  "reduce maxThreads src nJob sizeJob worker = reduceImpl src nJob sizeJob worker maxThreads"

text \<open>
  The strict left-to-right fold of a sequence: \<open>((x\<^sub>0 op x\<^sub>1) op x\<^sub>2) \<dots>\<close>, and the
  zero element for the empty sequence.
\<close>

fun strict_left_fold :: "('a \<Rightarrow> 'a \<Rightarrow> 'a) \<Rightarrow> ('a::zero) list \<Rightarrow> 'a" where
  "strict_left_fold f [] = 0"
| "strict_left_fold f (x # xs) = foldl f x xs"

definition associative :: "('a \<Rightarrow> 'a \<Rightarrow> 'a) \<Rightarrow> bool" where
  "associative f \<longleftrightarrow> (\<forall>a b c. f (f a b) c = f a (f b c))"

text \<open>The all-zero element is a left identity of the operator.\<close>

definition zero_left_identity :: "(('a::zero) \<Rightarrow> 'a \<Rightarrow> 'a) \<Rightarrow> bool" where
  "zero_left_identity f \<longleftrightarrow> (\<forall>a. f 0 a = a)"

text \<open>The elements of tile \<open>t\<close> of the first \<open>n\<close> elements of \<open>s\<close>.\<close>

definition tile_elems :: "'a list \<Rightarrow> nat \<Rightarrow> nat \<Rightarrow> nat \<Rightarrow> 'a list" where
  "tile_elems s n T t = take (tileSizeWithOffset n T t) (drop (tileIndex n T t) s)"

text \<open>
  Two associative operators on \<^verbatim>\<open>int\<close> elements of which zero is no identity:
  \<open>a + b + 1\<close> and the product.
\<close>

definition add_succ :: "int \<Rightarrow> int \<Rightarrow> int" where
  "add_succ a b = a + b + 1"

definition product :: "int \<Rightarrow> int \<Rightarrow> int" where
  "product a b = a * b"

subsection \<open>Scan\<close>

text \<open>
  The three loops of \<^verbatim>\<open>scan\<close>. Phase 1 reduces every tile but the last with
  \<^verbatim>\<open>reduceImpl\<close> on one thread into slot \<open>tile + 1\<close> of \<open>phase1reduction\<close>;
  phase 2 chains the slots into \<open>phase2reduction\<close>; the final phase walks every tile
  of \<^verbatim>\<open>src[1..nJob)\<close> again and writes \<^verbatim>\<open>dest\<close>. A pointer into a buffer
  (\<^verbatim>\<open>&s[tileIndex * sizeJob]\<close>, \<^verbatim>\<open>(TYPE *) dest + 1\<close>) is the buffer from
  that element on.
\<close>

definition scan_phase1 ::
  "nat \<Rightarrow> ('a::zero) list \<Rightarrow> nat \<Rightarrow> nat \<Rightarrow> ('a \<Rightarrow> 'a \<Rightarrow> 'a) \<Rightarrow> 'a list \<Rightarrow> failure + 'a list" where
  "scan_phase1 maxThreads src nJob sizeJob worker phase1reduction =
     for_range 0 (nTiles (nJob - 1) maxThreads - 1)
       (\<lambda>tile phase1reduction.
          and_then
            (reduceImpl (drop (tileIndex (nJob - 1) maxThreads tile + 1) src)
               (tileSizeWithOffset (nJob - 1) maxThreads tile) sizeJob worker 1)
            (\<lambda>r. store phase1reduction (tile + 1) r))
       phase1reduction"

definition scan_phase2 ::
  "nat \<Rightarrow> nat \<Rightarrow> ('a \<Rightarrow> 'a \<Rightarrow> 'a) \<Rightarrow> 'a list \<Rightarrow> 'a list \<Rightarrow> failure + 'a list" where
  "scan_phase2 maxThreads nJob worker phase1reduction phase2reduction =
     for_range 1 (nTiles (nJob - 1) maxThreads)
       (\<lambda>tile phase2reduction.
          and_then (load phase2reduction (tile - 1)) (\<lambda>v2.
          and_then (load phase1reduction tile) (\<lambda>v3.
          store phase2reduction tile (worker v2 v3))))
       phase2reduction"

definition scan_phase3 ::
  "nat \<Rightarrow> 'a list \<Rightarrow> nat \<Rightarrow> ('a \<Rightarrow> 'a \<Rightarrow> 'a) \<Rightarrow> 'a list \<Rightarrow> 'a list \<Rightarrow> failure + 'a list" where
  "scan_phase3 maxThreads src nJob worker phase2reduction d =
     for_range 0 (nTiles (nJob - 1) maxThreads)
       (\<lambda>tile d.
          and_then (load phase2reduction tile) (\<lambda>v2.
          and_then (load src (tileIndex (nJob - 1) maxThreads tile + 1)) (\<lambda>v3.
          and_then (store d (tileIndex (nJob - 1) maxThreads tile + 1) (worker v2 v3)) (\<lambda>d.
          for_range 1 (tileSizeWithOffset (nJob - 1) maxThreads tile)
            (\<lambda>i d.
               and_then (load d (i - 1 + (tileIndex (nJob - 1) maxThreads tile + 1))) (\<lambda>v2.
               and_then (load src (i + (tileIndex (nJob - 1) maxThreads tile + 1))) (\<lambda>v3.
               store d (i + (tileIndex (nJob - 1) maxThreads tile + 1)) (worker v2 v3))))
            d))))
       d"

text \<open>
  \<^verbatim>\<open>scan(dest, src, nJob, sizeJob, worker)\<close>; the result is the destination buffer
  after the call.
\<close>

definition scan ::
  "nat \<Rightarrow> 'a list \<Rightarrow> ('a::zero) list \<Rightarrow> nat \<Rightarrow> nat \<Rightarrow> ('a \<Rightarrow> 'a \<Rightarrow> 'a) \<Rightarrow> failure + 'a list" where
  "scan maxThreads dest src nJob sizeJob worker =
     (if nJob = 0 then Inr dest
      else
        and_then (load src 0) (\<lambda>s0.
        and_then (store dest 0 s0) (\<lambda>d.
        if nJob = 1 then Inr d
        else
          and_then (store (replicate (nTiles (nJob - 1) maxThreads) 0) 0 s0) (\<lambda>phase1reduction.
          and_then (store (replicate (nTiles (nJob - 1) maxThreads) 0) 0 s0) (\<lambda>phase2reduction.
          and_then (scan_phase1 maxThreads src nJob sizeJob worker phase1reduction) (\<lambda>phase1reduction.
          and_then (scan_phase2 maxThreads nJob worker phase1reduction phase2reduction) (\<lambda>phase2reduction.
          scan_phase3 maxThreads src nJob worker phase2reduction d)))))))"

definition inclusiveScan ::
  "nat \<Rightarrow> 'a list \<Rightarrow> ('a::zero) list \<Rightarrow> nat \<Rightarrow> nat \<Rightarrow> ('a \<Rightarrow> 'a \<Rightarrow> 'a) \<Rightarrow> failure + 'a list" where
  "inclusiveScan maxThreads dest src nJob sizeJob worker = scan maxThreads dest src nJob sizeJob worker"

text \<open>
  \<^verbatim>\<open>nJob - 1\<close> on a 64-bit \<^verbatim>\<open>size_t\<close>: at 0 the subtraction wraps around to
  \<^verbatim>\<open>SIZE_MAX\<close>.
\<close>

definition SIZE_MAX :: nat where
  "SIZE_MAX = 2 ^ 64 - 1"

definition size_t_minus_1 :: "nat \<Rightarrow> nat" where
  "size_t_minus_1 n = (if n = 0 then SIZE_MAX else n - 1)"

definition exclusiveScan ::
  "nat \<Rightarrow> 'a list \<Rightarrow> ('a::zero) list \<Rightarrow> nat \<Rightarrow> nat \<Rightarrow> ('a \<Rightarrow> 'a \<Rightarrow> 'a) \<Rightarrow> failure + 'a list" where
  "exclusiveScan maxThreads dest src nJob sizeJob worker =
     and_then (scan maxThreads (drop 1 dest) src (size_t_minus_1 nJob) sizeJob worker)
       (\<lambda>d. Inr (take 1 dest @ d))"

text \<open>The strict sequential left-to-right running fold of a sequence.\<close>

fun running_fold :: "('a \<Rightarrow> 'a \<Rightarrow> 'a) \<Rightarrow> 'a \<Rightarrow> 'a list \<Rightarrow> 'a list" where
  "running_fold f acc [] = []"
| "running_fold f acc (x # xs) = f acc x # running_fold f (f acc x) xs"

fun sequential_scan :: "('a \<Rightarrow> 'a \<Rightarrow> 'a) \<Rightarrow> 'a list \<Rightarrow> 'a list" where
  "sequential_scan f [] = []"
| "sequential_scan f (x # xs) = x # running_fold f x xs"

subsection \<open>Pack, gather and scatter\<close>

text \<open>
  The cast \<^verbatim>\<open>(int) nJob\<close> of a \<^verbatim>\<open>size_t\<close> to a 32-bit \<^verbatim>\<open>int\<close>: the value
  modulo \<open>2\<^sup>3\<^sup>2\<close>, read as two's complement. It is \<open>nJob\<close> itself up to
  \<^verbatim>\<open>INT_MAX\<close>.
\<close>

definition INT_MAX :: nat where
  "INT_MAX = 2 ^ 31 - 1"

definition int_of_size_t :: "nat \<Rightarrow> int" where
  "int_of_size_t n = (int n + 2 ^ 31) mod 2 ^ 32 - 2 ^ 31"

text \<open>
  \<^verbatim>\<open>s[k]\<close> and \<^verbatim>\<open>d[k] = v\<close> for an \<^verbatim>\<open>int\<close> index \<open>k\<close>, as gather and scatter
  index with the entries of their filter: a negative index is outside the buffer.
\<close>

definition load_at :: "'a list \<Rightarrow> int \<Rightarrow> failure + 'a" where
  "load_at buf k =
     (if 0 \<le> k \<and> k < int (length buf) then Inr (buf ! nat k) else Inl OutOfBounds)"

definition store_at :: "'a list \<Rightarrow> int \<Rightarrow> 'a \<Rightarrow> failure + 'a list" where
  "store_at buf k v =
     (if 0 \<le> k \<and> k < int (length buf) then Inr (buf[nat k := v]) else Inl OutOfBounds)"

text \<open>
  \<^verbatim>\<open>pack(dest, src, nJob, sizeJob, filter)\<close>: the result is the destination after
  the call and the returned \<open>pos\<close>.
\<close>

definition pack ::
  "'a list \<Rightarrow> 'a list \<Rightarrow> nat \<Rightarrow> nat \<Rightarrow> int list \<Rightarrow> failure + ('a list \<times> nat)" where
  "pack dest src nJob sizeJob fltr =
     (if \<not> 0 \<le> int_of_size_t nJob then Inl AssertionFailed
      else if \<not> 0 < sizeJob then Inl AssertionFailed
      else
        for_range 0 (nat (int_of_size_t nJob))
          (\<lambda>i (d, pos).
             and_then (load fltr i) (\<lambda>keep.
             if keep \<noteq> 0
             then and_then (load src i) (\<lambda>v. and_then (store d pos v) (\<lambda>d. Inr (d, pos + 1)))
             else Inr (d, pos)))
          (dest, 0))"

text \<open>
  Stable compaction as the specification words it: the elements whose filter entry is
  truthy, in source order.
\<close>

fun stable_compaction :: "'a list \<Rightarrow> int list \<Rightarrow> 'a list" where
  "stable_compaction (x # xs) (k # ks) =
     (if k \<noteq> 0 then x # stable_compaction xs ks else stable_compaction xs ks)"
| "stable_compaction xs ks = []"

definition gatherImpl ::
  "'a list \<Rightarrow> 'a list \<Rightarrow> nat \<Rightarrow> nat \<Rightarrow> int list \<Rightarrow> int \<Rightarrow> nat \<Rightarrow> failure + 'a list" where
  "gatherImpl dest src nJob sizeJob fltr nFilter nThreads =
     (if \<not> 0 \<le> int_of_size_t nJob then Inl AssertionFailed
      else if \<not> 0 < sizeJob then Inl AssertionFailed
      else if \<not> 0 \<le> nFilter then Inl AssertionFailed
      else
        for_range 0 (nat nFilter)
          (\<lambda>i d.
             and_then (load fltr i) (\<lambda>k.
             if k \<ge> int_of_size_t nJob then Inl InvalidFilterIndex
             else and_then (load_at src k) (\<lambda>v. store d i v)))
          dest)"

definition gather ::
  "nat \<Rightarrow> 'a list \<Rightarrow> 'a list \<Rightarrow> nat \<Rightarrow> nat \<Rightarrow> int list \<Rightarrow> int \<Rightarrow> failure + 'a list" where
  "gather maxThreads dest src nJob sizeJob fltr nFilter =
     gatherImpl dest src nJob sizeJob fltr nFilter maxThreads"

definition scatter ::
  "'a list \<Rightarrow> 'a list \<Rightarrow> nat \<Rightarrow> nat \<Rightarrow> int list \<Rightarrow> failure + 'a list" where
  "scatter dest src nJob sizeJob fltr =
     (if \<not> 0 \<le> int_of_size_t nJob then Inl AssertionFailed
      else if \<not> 0 < sizeJob then Inl AssertionFailed
      else
        for_range 0 (nat (int_of_size_t nJob))
          (\<lambda>i d.
             and_then (load fltr i) (\<lambda>k.
             and_then (load src i) (\<lambda>v. store_at d k v)))
          dest)"

subsection \<open>Map, pipelines and farm\<close>

text \<open>
  \<^verbatim>\<open>mapPipeline\<close> maps the destination onto itself, so the map and the pipelines
  run on a memory of two buffers, the caller's destination and source, and take
  their pointers as names of these.
\<close>

datatype buffer = Dest | Src

type_synonym 'a memory = "'a list \<times> 'a list"

definition buffer_of :: "'a memory \<Rightarrow> buffer \<Rightarrow> 'a list" where
  "buffer_of mem p = (case p of Dest \<Rightarrow> fst mem | Src \<Rightarrow> snd mem)"

definition set_buffer :: "'a memory \<Rightarrow> buffer \<Rightarrow> 'a list \<Rightarrow> 'a memory" where
  "set_buffer mem p b = (case p of Dest \<Rightarrow> (b, snd mem) | Src \<Rightarrow> (fst mem, b))"

text \<open>\<^verbatim>\<open>worker(&d[i], &s[i])\<close>.\<close>

definition apply_worker ::
  "('a \<Rightarrow> 'a) \<Rightarrow> buffer \<Rightarrow> buffer \<Rightarrow> nat \<Rightarrow> 'a memory \<Rightarrow> failure + 'a memory" where
  "apply_worker worker d s i mem =
     and_then (load (buffer_of mem s) i) (\<lambda>v2.
     and_then (store (buffer_of mem d) i (worker v2)) (\<lambda>b. Inr (set_buffer mem d b)))"

definition mapImpl ::
  "buffer \<Rightarrow> buffer \<Rightarrow> nat \<Rightarrow> ('a \<Rightarrow> 'a) \<Rightarrow> nat \<Rightarrow> 'a memory \<Rightarrow> failure + 'a memory" where
  "mapImpl d s nJob worker nThreads mem =
     (if nThreads < 1 then Inl AssertionFailed
      else for_range 0 nJob (\<lambda>i mem. apply_worker worker d s i mem) mem)"

definition map' ::
  "nat \<Rightarrow> buffer \<Rightarrow> buffer \<Rightarrow> nat \<Rightarrow> nat \<Rightarrow> ('a \<Rightarrow> 'a) \<Rightarrow> 'a memory \<Rightarrow> failure + 'a memory" where
  "map' maxThreads d s nJob sizeJob worker mem = mapImpl d s nJob worker maxThreads mem"

text \<open>
  The loop \<^verbatim>\<open>assert (workerList[i] != NULL)\<close> reads the first \<open>nWorkers\<close> entries
  of the stage list.
\<close>

definition check_workerList :: "('a \<Rightarrow> 'a) list \<Rightarrow> nat \<Rightarrow> failure + unit" where
  "check_workerList workerList nWorkers =
     for_range 0 nWorkers (\<lambda>i u. and_then (load workerList i) (\<lambda>w. Inr u)) ()"

definition mapPipeline ::
  "nat \<Rightarrow> 'a memory \<Rightarrow> nat \<Rightarrow> nat \<Rightarrow> ('a \<Rightarrow> 'a) list \<Rightarrow> nat \<Rightarrow> failure + 'a memory" where
  "mapPipeline maxThreads mem nJob sizeJob workerList nWorkers =
     (if \<not> 0 \<le> int_of_size_t nJob then Inl AssertionFailed
      else if \<not> 0 < sizeJob then Inl AssertionFailed
      else
        and_then (check_workerList workerList nWorkers) (\<lambda>u.
        if nWorkers = 0 then Inr mem
        else
          and_then (load workerList 0) (\<lambda>w.
          and_then (mapImpl Dest Src nJob w maxThreads mem) (\<lambda>mem.
          for_range 1 nWorkers
            (\<lambda>j mem. and_then (load workerList j) (\<lambda>w. mapImpl Dest Dest nJob w maxThreads mem))
            mem))))"

definition itemBoundPipeline ::
  "nat \<Rightarrow> 'a memory \<Rightarrow> nat \<Rightarrow> nat \<Rightarrow> ('a \<Rightarrow> 'a) list \<Rightarrow> nat \<Rightarrow> failure + 'a memory" where
  "itemBoundPipeline maxThreads mem nJob sizeJob workerList nWorkers =
     (if \<not> 0 \<le> int_of_size_t nJob then Inl AssertionFailed
      else if \<not> 0 < sizeJob then Inl AssertionFailed
      else
        and_then (check_workerList workerList nWorkers) (\<lambda>u.
        if nWorkers = 0 then Inr mem
        else
          for_range 0 nJob
            (\<lambda>i mem.
               and_then (load workerList 0) (\<lambda>w.
               and_then (apply_worker w Dest Src i mem) (\<lambda>mem.
               for_range 1 nWorkers
                 (\<lambda>j mem. and_then (load workerList j) (\<lambda>w. apply_worker w Dest Dest i mem))
                 mem)))
            mem))"

definition farm ::
  "nat \<Rightarrow> 'a memory \<Rightarrow> nat \<Rightarrow> nat \<Rightarrow> ('a \<Rightarrow> 'a) \<Rightarrow> nat \<Rightarrow> failure + 'a memory" where
  "farm maxThreads mem nJob sizeJob worker nWorkers = map' maxThreads Dest Src nJob sizeJob worker mem"

text \<open>
  The stage list applied to one item, first stage first:
  \<open>stage\<^sub>K (\<dots> (stage\<^sub>1 x))\<close>.
\<close>

definition apply_stages :: "('a \<Rightarrow> 'a) list \<Rightarrow> 'a \<Rightarrow> 'a" where
  "apply_stages stages x = foldl (\<lambda>v stage. stage v) x stages"

section \<open>The tile scheduler\<close>

lemma getTileIndex_closed:
  "getTileIndex t l s = t * s + (if t < l then t else l)"
proof (cases "t < l")
  case True
  then show ?thesis by (simp add: getTileIndex_def)
next
  case False
  then obtain k where "t = l + k" by (metis le_Suc_ex not_less)
  then show ?thesis by (simp add: getTileIndex_def algebra_simps)
qed

lemma getTileIndex_Suc:
  "getTileIndex (Suc t) l s = getTileIndex t l s + (s + (if t < l then 1 else 0))"
  by (simp add: getTileIndex_closed)

lemma tileIndex_0: "tileIndex n T 0 = 0"
  by (simp add: tileIndex_def getTileIndex_def)

lemma tileIndex_Suc: "tileIndex n T (Suc t) = tileIndex n T t + tileSizeWithOffset n T t"
  by (simp add: tileIndex_def tileSizeWithOffset_def getTileIndex_Suc)

lemma tileIndex_nTiles: "1 \<le> T \<Longrightarrow> tileIndex n T (nTiles n T) = n"
  using mod_less_divisor [of T n]
  by (auto simp: tileIndex_def getTileIndex_closed nTiles_def min_sz_def tileSize_def
        leftOverJobs_def not_less simp del: mod_less_divisor)

lemma tileSizeWithOffset_pos:
  "1 \<le> T \<Longrightarrow> t < nTiles n T \<Longrightarrow> 0 < tileSizeWithOffset n T t"
  by (auto simp: tileSizeWithOffset_def nTiles_def min_sz_def tileSize_def leftOverJobs_def
        div_greater_zero_iff split: if_splits)

lemma tileIndex_mono: "t \<le> u \<Longrightarrow> tileIndex n T t \<le> tileIndex n T u"
  by (induction u) (auto simp: tileIndex_Suc le_Suc_eq)

lemma tileIndex_end_le:
  "t < u \<Longrightarrow> tileIndex n T t + tileSizeWithOffset n T t \<le> tileIndex n T u"
  using tileIndex_mono [of "Suc t" u n T] by (simp add: tileIndex_Suc)

lemma tileIndex_end_le_nJob:
  assumes "1 \<le> T" and "t < nTiles n T"
  shows "tileIndex n T t + tileSizeWithOffset n T t \<le> n"
  using tileIndex_mono [of "Suc t" "nTiles n T" n T] assms
  by (simp add: tileIndex_Suc tileIndex_nTiles)

lemma tileRange_disjoint:
  assumes "t < u"
  shows "tileRange n T t \<inter> tileRange n T u = {}"
  using tileIndex_end_le [OF assms, of n T] by (auto simp: tileRange_def)

lemma tileRange_cover_upto:
  "(\<Union>t<k. tileRange n T t) = {0..<tileIndex n T k}"
proof (induction k)
  case 0
  show ?case by (simp add: tileIndex_0)
next
  case (Suc k)
  have "(\<Union>t<Suc k. tileRange n T t) = (\<Union>t<k. tileRange n T t) \<union> tileRange n T k"
    by (simp add: lessThan_Suc Un_commute)
  also have "\<dots> = {0..<tileIndex n T k} \<union> tileRange n T k"
    by (simp add: Suc.IH)
  also have "\<dots> = {0..<tileIndex n T (Suc k)}"
    by (auto simp: tileRange_def tileIndex_Suc)
  finally show ?case .
qed

lemma tiles_agree_with_spec:
  assumes "1 \<le> n" and "1 \<le> T" and "t < nTiles n T"
  shows "tileSizeWithOffset n T t = spec_tileLength n T t"
    and "tileIndex n T t = spec_tileStart n T t"
proof -
  have closed: "spec_tileStart n T t
      = t * spec_tileSize n T + (if t < spec_leftover n T then t else spec_leftover n T)"
  proof (cases "t < spec_leftover n T")
    case True
    then show ?thesis by (simp add: spec_tileStart_def)
  next
    case False
    then obtain k where "t = spec_leftover n T + k" by (metis le_Suc_ex not_less)
    then show ?thesis by (simp add: spec_tileStart_def algebra_simps)
  qed
  show "tileSizeWithOffset n T t = spec_tileLength n T t"
    using assms
    by (auto simp: tileSizeWithOffset_def spec_tileLength_def spec_tileSize_def
          spec_leftover_def spec_nTiles_def tileSize_def leftOverJobs_def nTiles_def
          min_sz_def min_def split: if_splits)
  show "tileIndex n T t = spec_tileStart n T t"
    unfolding closed tileIndex_def getTileIndex_closed
    using assms
    by (auto simp: spec_tileSize_def spec_leftover_def spec_nTiles_def tileSize_def
          leftOverJobs_def nTiles_def min_sz_def min_def split: if_splits)
qed

text \<open>
  Claim C3. For \<open>totalItems \<ge> 1\<close> and \<open>workerCount \<ge> 1\<close> the tiles that
  \<^verbatim>\<open>reduceImpl\<close> and \<^verbatim>\<open>scan\<close> compute are the tiles of the specification's
  contract: there are \<open>min totalItems workerCount\<close> of them, tile \<open>t\<close> has the
  contract's length (\<open>tileSize + 1\<close> for the first \<open>leftover\<close> tiles, \<open>tileSize\<close>
  for the others) and the contract's start offset; the first tile starts at 0, each tile
  starts where the one before it ends, two different tiles share no index, together
  they are exactly \<open>[0, totalItems)\<close>, and two tile lengths differ by at most one.
\<close>

theorem tile_partition_contract:
  assumes "1 \<le> totalItems" and "1 \<le> workerCount"
  shows "nTiles totalItems workerCount = spec_nTiles totalItems workerCount
    \<and> (\<forall>t < nTiles totalItems workerCount.
          tileSizeWithOffset totalItems workerCount t = spec_tileLength totalItems workerCount t
        \<and> tileIndex totalItems workerCount t = spec_tileStart totalItems workerCount t)
    \<and> tileIndex totalItems workerCount 0 = 0
    \<and> (\<forall>t. tileIndex totalItems workerCount (Suc t)
            = tileIndex totalItems workerCount t + tileSizeWithOffset totalItems workerCount t)
    \<and> (\<forall>t < nTiles totalItems workerCount. \<forall>u < nTiles totalItems workerCount.
          t \<noteq> u \<longrightarrow> tileRange totalItems workerCount t \<inter> tileRange totalItems workerCount u = {})
    \<and> (\<Union>t < nTiles totalItems workerCount. tileRange totalItems workerCount t)
          = {0..<totalItems}
    \<and> (\<forall>t < nTiles totalItems workerCount. \<forall>u < nTiles totalItems workerCount.
          tileSizeWithOffset totalItems workerCount t
            \<le> tileSizeWithOffset totalItems workerCount u + 1)"
proof -
  let ?N = "nTiles totalItems workerCount"
  have c1: "?N = spec_nTiles totalItems workerCount"
    by (simp add: nTiles_def spec_nTiles_def min_sz_def min_def)
  have c2: "\<forall>t < ?N.
          tileSizeWithOffset totalItems workerCount t = spec_tileLength totalItems workerCount t
        \<and> tileIndex totalItems workerCount t = spec_tileStart totalItems workerCount t"
    using tiles_agree_with_spec [OF assms] by simp
  have c3: "\<forall>t. tileIndex totalItems workerCount (Suc t)
            = tileIndex totalItems workerCount t + tileSizeWithOffset totalItems workerCount t"
    by (simp add: tileIndex_Suc)
  have c4: "\<forall>t < ?N. \<forall>u < ?N.
          t \<noteq> u \<longrightarrow> tileRange totalItems workerCount t \<inter> tileRange totalItems workerCount u = {}"
  proof (intro allI impI)
    fix t u :: nat
    assume "t \<noteq> u"
    then consider "t < u" | "u < t" by (meson nat_neq_iff)
    then show "tileRange totalItems workerCount t \<inter> tileRange totalItems workerCount u = {}"
      using tileRange_disjoint [of t u] tileRange_disjoint [of u t] by (cases) auto
  qed
  have c5: "(\<Union>t < ?N. tileRange totalItems workerCount t) = {0..<totalItems}"
    by (simp add: tileRange_cover_upto tileIndex_nTiles [OF assms(2)])
  have c6: "\<forall>t < ?N. \<forall>u < ?N.
          tileSizeWithOffset totalItems workerCount t
            \<le> tileSizeWithOffset totalItems workerCount u + 1"
    by (simp add: tileSizeWithOffset_def)
  from c1 c2 c3 c4 c5 c6 show ?thesis
    using tileIndex_0 [of totalItems workerCount] by blast
qed

theorem tile_partition_contract_witness:
  "(1::nat) \<le> 7 \<and> (1::nat) \<le> 3
   \<and> nTiles 7 3 = 3
   \<and> tileIndex 7 3 0 = 0 \<and> tileSizeWithOffset 7 3 0 = 3
   \<and> tileIndex 7 3 1 = 3 \<and> tileSizeWithOffset 7 3 1 = 2
   \<and> tileIndex 7 3 2 = 5 \<and> tileSizeWithOffset 7 3 2 = 2
   \<and> (\<Union>t < nTiles 7 3. tileRange 7 3 t) = {0..<7}"
proof -
  have h1: "(1::nat) \<le> 7" and h2: "(1::nat) \<le> 3" by simp_all
  note c = tile_partition_contract [OF h1 h2]
  have n: "nTiles 7 3 = 3" using c by (simp add: spec_nTiles_def)
  have "\<forall>t < 3. tileSizeWithOffset 7 3 t = spec_tileLength 7 3 t
        \<and> tileIndex 7 3 t = spec_tileStart 7 3 t"
    using c n by simp
  then have "tileSizeWithOffset 7 3 0 = spec_tileLength 7 3 0"
    "tileSizeWithOffset 7 3 1 = spec_tileLength 7 3 1"
    "tileSizeWithOffset 7 3 2 = spec_tileLength 7 3 2"
    "tileIndex 7 3 1 = spec_tileStart 7 3 1"
    "tileIndex 7 3 2 = spec_tileStart 7 3 2"
    by simp_all
  then have "tileSizeWithOffset 7 3 0 = 3" "tileSizeWithOffset 7 3 1 = 2"
    "tileSizeWithOffset 7 3 2 = 2" "tileIndex 7 3 1 = 3" "tileIndex 7 3 2 = 5"
    by (simp_all add: spec_tileLength_def spec_tileStart_def spec_leftover_def
          spec_tileSize_def spec_nTiles_def)
  then show ?thesis using c n by simp
qed

section \<open>Loops and the reduce engine\<close>

lemma and_then_simps [simp]:
  "and_then (Inr x) f = f x" "and_then (Inl e) f = Inl e"
  by (simp_all add: and_then_def)

lemma load_simp [simp]: "i < length buf \<Longrightarrow> load buf i = Inr (buf ! i)"
  by (simp add: load_def)

lemma store_simp [simp]: "i < length buf \<Longrightarrow> store buf i v = Inr (buf[i := v])"
  by (simp add: store_def)

lemma for_range_invariant:
  assumes "I i st" and "i \<le> n"
    and step: "\<And>k s. i \<le> k \<Longrightarrow> k < n \<Longrightarrow> I k s \<Longrightarrow> \<exists>s'. body k s = Inr s' \<and> I (Suc k) s'"
  shows "\<exists>s'. for_range i n body st = Inr s' \<and> I n s'"
  using assms
proof (induction "n - i" arbitrary: i st)
  case 0
  then show ?case by (simp add: for_range.simps)
next
  case (Suc d)
  then have lt: "i < n" by simp
  from Suc.prems(3) [OF le_refl lt Suc.prems(1)]
  obtain s1 where s1: "body i st = Inr s1" "I (Suc i) s1" by blast
  have "\<exists>s'. for_range (Suc i) n body s1 = Inr s' \<and> I n s'"
  proof (rule Suc.hyps(1))
    show "d = n - Suc i" using Suc.hyps(2) by simp
    show "I (Suc i) s1" by (rule s1)
    show "Suc i \<le> n" using lt by simp
    show "\<And>k s. Suc i \<le> k \<Longrightarrow> k < n \<Longrightarrow> I k s \<Longrightarrow> \<exists>s'. body k s = Inr s' \<and> I (Suc k) s'"
      using Suc.prems(3) by simp
  qed
  then show ?case using lt s1 by (subst for_range.simps) simp
qed

lemma for_range_empty [simp]: "n \<le> i \<Longrightarrow> for_range i n body st = Inr st"
  by (simp add: for_range.simps)

text \<open>What one tile's loop of phase 1 leaves in its slot.\<close>

lemma reduce_tile_loop:
  assumes "tile < length p" and "idx + len \<le> length s"
  shows "for_range 0 len
           (\<lambda>i p. and_then (load p tile) (\<lambda>v2.
                   and_then (load s (i + idx)) (\<lambda>v3. store p tile (worker v2 v3))))
           p
         = Inr (p[tile := foldl worker (p ! tile) (take len (drop idx s))])"
proof -
  let ?I = "\<lambda>k st. st = p[tile := foldl worker (p ! tile) (take k (drop idx s))]"
  have "\<exists>s'. for_range 0 len
           (\<lambda>i p. and_then (load p tile) (\<lambda>v2.
                   and_then (load s (i + idx)) (\<lambda>v3. store p tile (worker v2 v3))))
           p = Inr s' \<and> ?I len s'"
  proof (rule for_range_invariant [where I = ?I])
    show "?I 0 p" using assms by simp
    show "0 \<le> len" by simp
  next
    fix k st assume k: "k < len" and I: "?I k st"
    have kk: "k < length (drop idx s)" using k assms by simp
    have "take (Suc k) (drop idx s) = take k (drop idx s) @ [s ! (k + idx)]"
      using take_Suc_conv_app_nth [OF kk] assms k by (simp add: add.commute)
    then show "\<exists>s'. and_then (load st tile) (\<lambda>v2.
                   and_then (load s (k + idx)) (\<lambda>v3. store st tile (worker v2 v3))) = Inr s'
                \<and> ?I (Suc k) s'"
      using I assms k by simp
  qed
  then show ?thesis by auto
qed


lemma reduce_phase1:
  assumes T: "1 \<le> T" and len: "n \<le> length s"
  shows "for_range 0 (nTiles n T)
           (\<lambda>tile p. for_range 0 (tileSizeWithOffset n T tile)
              (\<lambda>i p. and_then (load p tile) (\<lambda>v2.
                      and_then (load s (i + tileIndex n T tile)) (\<lambda>v3.
                      store p tile (worker v2 v3))))
              p)
           (replicate (nTiles n T) 0)
         = Inr (map (\<lambda>t. foldl worker 0 (tile_elems s n T t)) [0..<nTiles n T])"
proof -
  let ?N = "nTiles n T"
  let ?R = "\<lambda>t. foldl worker 0 (tile_elems s n T t)"
  let ?I = "\<lambda>k st. st = map (\<lambda>t. if t < k then ?R t else 0) [0..<?N]"
  let ?body = "\<lambda>tile p. for_range 0 (tileSizeWithOffset n T tile)
              (\<lambda>i p. and_then (load p tile) (\<lambda>v2.
                      and_then (load s (i + tileIndex n T tile)) (\<lambda>v3.
                      store p tile (worker v2 v3))))
              p"
  have "\<exists>s'. for_range 0 ?N ?body (replicate ?N 0) = Inr s' \<and> ?I ?N s'"
  proof (rule for_range_invariant [where I = ?I])
    show "?I 0 (replicate ?N 0)" by (simp add: list_eq_iff_nth_eq)
    show "0 \<le> ?N" by simp
  next
    fix k st assume k: "k < ?N" and I: "?I k st"
    have b: "tileIndex n T k + tileSizeWithOffset n T k \<le> length s"
      using tileIndex_end_le_nJob [OF T k] len by simp
    have kl: "k < length st" using I k by simp
    have st0: "st ! k = 0" using I k by simp
    have "?body k st = Inr (st[k := foldl worker (st ! k) (tile_elems s n T k)])"
      unfolding tile_elems_def by (rule reduce_tile_loop [OF kl b])
    moreover have "?I (Suc k) (st[k := foldl worker (st ! k) (tile_elems s n T k)])"
      using I k st0 by (auto simp: list_eq_iff_nth_eq nth_list_update less_Suc_eq)
    ultimately show "\<exists>s'. ?body k st = Inr s' \<and> ?I (Suc k) s'" by blast
  qed
  then obtain s' where "for_range 0 ?N ?body (replicate ?N 0) = Inr s'" and "?I ?N s'" by blast
  moreover have "map (\<lambda>t. if t < ?N then ?R t else 0) [0..<?N] = map ?R [0..<?N]" by simp
  ultimately show ?thesis by simp
qed

lemma reduce_phase2:
  "for_range 0 (length p)
     (\<lambda>tile result. and_then (load p tile) (\<lambda>v3. Inr (worker result v3))) r0
   = Inr (foldl worker r0 p)"
proof -
  let ?I = "\<lambda>k r. r = foldl worker r0 (take k p)"
  have "\<exists>r. for_range 0 (length p)
     (\<lambda>tile result. and_then (load p tile) (\<lambda>v3. Inr (worker result v3))) r0 = Inr r
     \<and> ?I (length p) r"
  proof (rule for_range_invariant [where I = ?I])
    show "?I 0 r0" by simp
    show "0 \<le> length p" by simp
  next
    fix k r assume "k < length p" and "?I k r"
    then show "\<exists>s'. and_then (load p k) (\<lambda>v3. Inr (worker r v3)) = Inr s' \<and> ?I (Suc k) s'"
      by (simp add: take_Suc_conv_app_nth)
  qed
  then show ?thesis by auto
qed

text \<open>What \<^verbatim>\<open>reduceImpl\<close> computes, for any operator.\<close>

lemma reduceImpl_computes:
  assumes "1 \<le> T" and "n \<le> length s" and "0 < n"
  shows "reduceImpl s n sizeJob worker T
         = Inr (foldl worker 0 (map (\<lambda>t. foldl worker 0 (tile_elems s n T t)) [0..<nTiles n T]))"
proof -
  let ?p = "map (\<lambda>t. foldl worker 0 (tile_elems s n T t)) [0..<nTiles n T]"
  have "length ?p = nTiles n T" by simp
  then have "for_range 0 (nTiles n T)
     (\<lambda>tile result. and_then (load ?p tile) (\<lambda>v3. Inr (worker result v3))) 0
   = Inr (foldl worker 0 ?p)"
    using reduce_phase2 [of ?p worker 0] by simp
  then show ?thesis
    using assms unfolding reduceImpl_def
    by (simp add: reduce_phase1 [OF assms(1,2)])
qed

lemma foldl_associative:
  "associative f \<Longrightarrow> f a (foldl f b ys) = foldl f (f a b) ys"
  by (induction ys arbitrary: b) (simp_all add: associative_def)

lemma strict_left_fold_append:
  assumes "associative f" and "xs \<noteq> []" and "ys \<noteq> []"
  shows "strict_left_fold f (xs @ ys) = f (strict_left_fold f xs) (strict_left_fold f ys)"
proof -
  obtain x xs' where xs: "xs = x # xs'" using assms(2) by (cases xs) auto
  obtain y ys' where ys: "ys = y # ys'" using assms(3) by (cases ys) auto
  show ?thesis
    by (simp add: xs ys foldl_associative [OF assms(1)])
qed

lemma foldl_zero_left_identity:
  "zero_left_identity f \<Longrightarrow> foldl f 0 xs = strict_left_fold f xs"
  by (cases xs) (simp_all add: zero_left_identity_def)

lemma strict_left_fold_snoc:
  "xs \<noteq> [] \<Longrightarrow> strict_left_fold f (xs @ [y]) = f (strict_left_fold f xs) y"
  by (cases xs) simp_all

lemma tile_elems_nonempty:
  assumes "1 \<le> T" and "n \<le> length s" and "t < nTiles n T"
  shows "tile_elems s n T t \<noteq> []"
  using tileSizeWithOffset_pos [OF assms(1,3)] tileIndex_end_le_nJob [OF assms(1,3)] assms(2)
  by (auto simp: tile_elems_def)

lemma take_tileIndex_Suc:
  "take (tileIndex n T (Suc t)) s = take (tileIndex n T t) s @ tile_elems s n T t"
  by (simp add: tileIndex_Suc tile_elems_def take_add)

lemma combine_tiles:
  assumes a: "associative f" and z: "zero_left_identity f"
    and T: "1 \<le> T" and len: "n \<le> length s"
  shows "k \<le> nTiles n T \<Longrightarrow>
     foldl f 0 (map (\<lambda>t. foldl f 0 (tile_elems s n T t)) [0..<k])
     = strict_left_fold f (take (tileIndex n T k) s)"
proof (induction k)
  case 0
  show ?case by (simp add: tileIndex_0)
next
  case (Suc k)
  then have k: "k < nTiles n T" by simp
  have ne: "tile_elems s n T k \<noteq> []" by (rule tile_elems_nonempty [OF T len k])
  have "foldl f 0 (map (\<lambda>t. foldl f 0 (tile_elems s n T t)) [0..<Suc k])
      = f (strict_left_fold f (take (tileIndex n T k) s)) (strict_left_fold f (tile_elems s n T k))"
    using Suc.IH k by (simp add: foldl_zero_left_identity [OF z])
  also have "\<dots> = strict_left_fold f (take (tileIndex n T k) s @ tile_elems s n T k)"
  proof (cases "take (tileIndex n T k) s = []")
    case True
    have "f 0 (strict_left_fold f (tile_elems s n T k)) = strict_left_fold f (tile_elems s n T k)"
      using z by (simp add: zero_left_identity_def)
    then show ?thesis by (simp only: True strict_left_fold.simps append_Nil)
  next
    case False
    then show ?thesis by (simp add: strict_left_fold_append [OF a False ne])
  qed
  finally show ?case by (simp add: take_tileIndex_Suc)
qed

lemma reduceImpl_strict_left_fold:
  assumes a: "associative worker" and z: "zero_left_identity worker"
    and T: "1 \<le> nThreads" and len: "nJob \<le> length src"
  shows "reduceImpl src nJob sizeJob worker nThreads = Inr (strict_left_fold worker (take nJob src))"
proof (cases "nJob = 0")
  case True
  then show ?thesis using T by (simp add: reduceImpl_def)
next
  case False
  then have "reduceImpl src nJob sizeJob worker nThreads
     = Inr (foldl worker 0 (map (\<lambda>t. foldl worker 0 (tile_elems src nJob nThreads t))
              [0..<nTiles nJob nThreads]))"
    using reduceImpl_computes [OF T len] by simp
  then show ?thesis
    using combine_tiles [OF a z T len le_refl] by (simp add: tileIndex_nTiles [OF T])
qed

text \<open>
  Claim C1, as amended. For every associative operator of which the all-zero element
  is a left identity, every source buffer of \<open>n\<close> elements and every worker count of
  at least one, \<^verbatim>\<open>reduce\<close> sets \<^verbatim>\<open>dest\<close> to the strict left-to-right fold of
  the source (the zero element when \<open>n = 0\<close>); the result is the same for the worker
  counts 1, 2 and the platform maximum.
\<close>

theorem reduce_is_strict_left_fold:
  assumes "associative op" and "zero_left_identity op"
    and "1 \<le> maxThreads" and "length src = n"
  shows "reduce maxThreads src n sizeJob op = Inr (strict_left_fold op src)
       \<and> reduce 1 src n sizeJob op = Inr (strict_left_fold op src)
       \<and> reduce 2 src n sizeJob op = Inr (strict_left_fold op src)"
  using assms by (simp add: reduce_def reduceImpl_strict_left_fold)

theorem reduce_is_strict_left_fold_witness:
  "associative ((+) :: int \<Rightarrow> int \<Rightarrow> int) \<and> zero_left_identity ((+) :: int \<Rightarrow> int \<Rightarrow> int)
   \<and> (1::nat) \<le> 3 \<and> length [1, 2, 3, 4, 5 :: int] = 5
   \<and> reduce 3 [1, 2, 3, 4, 5 :: int] 5 4 (+) = Inr 15
   \<and> reduce 1 [1, 2, 3, 4, 5 :: int] 5 4 (+) = Inr 15
   \<and> reduce 2 [1, 2, 3, 4, 5 :: int] 5 4 (+) = Inr 15"
proof -
  have a: "associative ((+) :: int \<Rightarrow> int \<Rightarrow> int)" by (simp add: associative_def)
  have z: "zero_left_identity ((+) :: int \<Rightarrow> int \<Rightarrow> int)" by (simp add: zero_left_identity_def)
  have t: "(1::nat) \<le> 3" by simp
  have l: "length [1, 2, 3, 4, 5 :: int] = 5" by simp
  show ?thesis
    using a z t l reduce_is_strict_left_fold [OF a z t l, of 4] by simp
qed

text \<open>
  The claim as stated fails for an associative operator of which zero is no identity:
  with \<open>a + b + 1\<close> the result of \<^verbatim>\<open>reduce\<close> over \<open>[1, 2]\<close> is 6 on one worker and
  7 on two, and the strict left fold is 4; with the product every result is 0.
\<close>

theorem reduce_counterexample:
  "associative add_succ \<and> associative product
   \<and> reduce 1 [1, 2] 2 4 add_succ = Inr 6
   \<and> reduce 2 [1, 2] 2 4 add_succ = Inr 7
   \<and> strict_left_fold add_succ [1, 2] = 4
   \<and> reduce 2 [2, 3] 2 4 product = Inr 0
   \<and> strict_left_fold product [2, 3] = 6"
proof -
  have "associative add_succ" by (simp add: associative_def add_succ_def)
  moreover have "associative product" by (simp add: associative_def product_def)
  moreover have "reduce 1 [1, 2] 2 4 add_succ = Inr 6"
    by (simp add: reduce_def reduceImpl_def nTiles_def min_sz_def tileSizeWithOffset_def
          tileSize_def leftOverJobs_def tileIndex_def getTileIndex_def for_range.simps
          add_succ_def)
  moreover have "reduce 2 [1, 2] 2 4 add_succ = Inr 7"
    by (simp add: reduce_def reduceImpl_def nTiles_def min_sz_def tileSizeWithOffset_def
          tileSize_def leftOverJobs_def tileIndex_def getTileIndex_def for_range.simps
          add_succ_def)
  moreover have "reduce 2 [2, 3] 2 4 product = Inr 0"
    by (simp add: reduce_def reduceImpl_def nTiles_def min_sz_def tileSizeWithOffset_def
          tileSize_def leftOverJobs_def tileIndex_def getTileIndex_def for_range.simps
          product_def)
  ultimately show ?thesis by (simp add: add_succ_def product_def)
qed

section \<open>The scan engine\<close>

text \<open>The fold of \<open>src[0..j]\<close>, inclusive.\<close>

lemma prefix_fold_0: "src \<noteq> [] \<Longrightarrow> strict_left_fold f (take (Suc 0) src) = src ! 0"
  by (cases src) simp_all

lemma prefix_fold_Suc:
  assumes "Suc j < length src"
  shows "strict_left_fold f (take (Suc (Suc j)) src)
         = f (strict_left_fold f (take (Suc j) src)) (src ! Suc j)"
proof -
  have "take (Suc (Suc j)) src = take (Suc j) src @ [src ! Suc j]"
    using assms by (simp add: take_Suc_conv_app_nth)
  moreover have "take (Suc j) src \<noteq> []" using assms by auto
  ultimately show ?thesis by (simp add: strict_left_fold_snoc)
qed

lemma prefix_fold_tile:
  assumes a: "associative f" and "0 < len" and "Suc (i + len) \<le> length src"
  shows "f (strict_left_fold f (take (Suc i) src)) (strict_left_fold f (take len (drop (Suc i) src)))
         = strict_left_fold f (take (Suc (i + len)) src)"
proof -
  have 1: "take (Suc i) src \<noteq> []" using assms by auto
  have 2: "take len (drop (Suc i) src) \<noteq> []" using assms by auto
  have "take (Suc (i + len)) src = take (Suc i) src @ take len (drop (Suc i) src)"
    using take_add [of "Suc i" len src] by simp
  then show ?thesis by (simp add: strict_left_fold_append [OF a 1 2])
qed

lemma scan_phase1_slots:
  assumes a: "associative f" and z: "zero_left_identity f" and T: "1 \<le> T"
    and n: "2 \<le> nJob" "nJob \<le> length src" and p: "length p0 = nTiles (nJob - 1) T"
  shows "\<exists>p1. scan_phase1 T src nJob sizeJob f p0 = Inr p1
      \<and> length p1 = nTiles (nJob - 1) T
      \<and> (\<forall>k. Suc k < nTiles (nJob - 1) T \<longrightarrow>
            p1 ! Suc k = strict_left_fold f
              (take (tileSizeWithOffset (nJob - 1) T k) (drop (Suc (tileIndex (nJob - 1) T k)) src)))"
proof -
  let ?m = "nJob - 1"
  let ?N = "nTiles ?m T"
  let ?R = "\<lambda>k. strict_left_fold f (take (tileSizeWithOffset ?m T k) (drop (Suc (tileIndex ?m T k)) src))"
  let ?I = "\<lambda>k p. length p = ?N \<and> (\<forall>j<k. p ! Suc j = ?R j)"
  have "\<exists>p1. scan_phase1 T src nJob sizeJob f p0 = Inr p1 \<and> ?I (?N - 1) p1"
    unfolding scan_phase1_def
  proof (rule for_range_invariant [where I = ?I])
    show "?I 0 p0" using p by simp
    show "0 \<le> ?N - 1" by simp
  next
    fix k st assume k: "k < ?N - 1" and I: "?I k st"
    have kN: "k < ?N" using k by simp
    have b: "tileIndex ?m T k + tileSizeWithOffset ?m T k \<le> ?m"
      by (rule tileIndex_end_le_nJob [OF T kN])
    have "tileSizeWithOffset ?m T k \<le> length (drop (tileIndex ?m T k + 1) src)"
      using b n by simp
    then have r: "reduceImpl (drop (tileIndex ?m T k + 1) src) (tileSizeWithOffset ?m T k) sizeJob f 1
        = Inr (?R k)"
      using reduceImpl_strict_left_fold [OF a z, of 1] by simp
    have kl: "Suc k < length st" using I k by simp
    have "and_then (reduceImpl (drop (tileIndex ?m T k + 1) src)
                  (tileSizeWithOffset ?m T k) sizeJob f 1) (\<lambda>r. store st (k + 1) r)
          = store st (k + 1) (?R k)"
      by (simp only: r and_then_simps)
    also have "\<dots> = Inr (st[Suc k := ?R k])" using kl by simp
    finally have body: "and_then (reduceImpl (drop (tileIndex ?m T k + 1) src)
                  (tileSizeWithOffset ?m T k) sizeJob f 1) (\<lambda>r. store st (k + 1) r)
          = Inr (st[Suc k := ?R k])" .
    have "?I (Suc k) (st[Suc k := ?R k])"
      using I kl by (auto simp: nth_list_update less_Suc_eq)
    with body show "\<exists>s'. and_then (reduceImpl (drop (tileIndex ?m T k + 1) src)
                  (tileSizeWithOffset ?m T k) sizeJob f 1) (\<lambda>r. store st (k + 1) r) = Inr s'
               \<and> ?I (Suc k) s'"
      by blast
  qed
  then show ?thesis by auto
qed

lemma scan_phase2_slots:
  assumes a: "associative f" and T: "1 \<le> T"
    and n: "2 \<le> nJob" "nJob \<le> length src"
    and p1: "length p1 = nTiles (nJob - 1) T"
      "\<forall>k. Suc k < nTiles (nJob - 1) T \<longrightarrow>
            p1 ! Suc k = strict_left_fold f
              (take (tileSizeWithOffset (nJob - 1) T k) (drop (Suc (tileIndex (nJob - 1) T k)) src))"
    and p0: "length p0 = nTiles (nJob - 1) T" "p0 ! 0 = src ! 0"
  shows "\<exists>p2. scan_phase2 T nJob f p1 p0 = Inr p2
      \<and> length p2 = nTiles (nJob - 1) T
      \<and> (\<forall>t < nTiles (nJob - 1) T.
            p2 ! t = strict_left_fold f (take (Suc (tileIndex (nJob - 1) T t)) src))"
proof -
  let ?m = "nJob - 1"
  let ?N = "nTiles ?m T"
  let ?P = "\<lambda>j. strict_left_fold f (take (Suc j) src)"
  let ?I = "\<lambda>t p. length p = ?N \<and> (\<forall>k<t. p ! k = ?P (tileIndex ?m T k))"
  have N1: "1 \<le> ?N" using n T by (auto simp: nTiles_def min_sz_def)
  have src: "src \<noteq> []" using n by auto
  have "\<exists>p2. scan_phase2 T nJob f p1 p0 = Inr p2 \<and> ?I ?N p2"
    unfolding scan_phase2_def
  proof (rule for_range_invariant [where I = ?I])
    show "?I 1 p0" using p0 by (simp add: tileIndex_0 prefix_fold_0 [OF src])
    show "1 \<le> ?N" by (rule N1)
  next
    fix t st assume t1: "1 \<le> t" and t: "t < ?N" and I: "?I t st"
    obtain k where k: "t = Suc k" using t1 by (cases t) auto
    have kN: "k < ?N" using t k by simp
    have b: "tileIndex ?m T k + tileSizeWithOffset ?m T k \<le> ?m"
      by (rule tileIndex_end_le_nJob [OF T kN])
    have pos: "0 < tileSizeWithOffset ?m T k" by (rule tileSizeWithOffset_pos [OF T kN])
    have le: "Suc (tileIndex ?m T k + tileSizeWithOffset ?m T k) \<le> length src"
      using b n by simp
    have v2: "st ! k = ?P (tileIndex ?m T k)" using I k by simp
    have v3: "p1 ! Suc k = strict_left_fold f
              (take (tileSizeWithOffset ?m T k) (drop (Suc (tileIndex ?m T k)) src))"
      using p1(2) t k by simp
    have new: "f (st ! k) (p1 ! Suc k) = ?P (tileIndex ?m T (Suc k))"
      unfolding v2 v3 tileIndex_Suc by (rule prefix_fold_tile [OF a pos le])
    have "and_then (load st (t - 1)) (\<lambda>v2. and_then (load p1 t) (\<lambda>v3. store st t (f v2 v3)))
        = Inr (st[t := ?P (tileIndex ?m T t)])"
      using I t k p1(1) new by simp
    moreover have "?I (Suc t) (st[t := ?P (tileIndex ?m T t)])"
      using I t by (auto simp: nth_list_update less_Suc_eq)
    ultimately show "\<exists>s'. and_then (load st (t - 1)) (\<lambda>v2. and_then (load p1 t)
              (\<lambda>v3. store st t (f v2 v3))) = Inr s' \<and> ?I (Suc t) s'"
      by blast
  qed
  then show ?thesis by auto
qed

lemma scan_tile_walk:
  assumes i1: "1 \<le> len" and b: "ti + len \<le> length src" "ti + len \<le> length d"
    and d: "\<forall>j < ti + 1. d ! j = strict_left_fold f (take (Suc j) src)"
  shows "\<exists>d'. for_range 1 len
            (\<lambda>i d. and_then (load d (i - 1 + ti)) (\<lambda>v2.
                    and_then (load src (i + ti)) (\<lambda>v3. store d (i + ti) (f v2 v3)))) d = Inr d'
      \<and> length d' = length d
      \<and> (\<forall>j < ti + len. d' ! j = strict_left_fold f (take (Suc j) src))
      \<and> (\<forall>j. ti + len \<le> j \<longrightarrow> d' ! j = d ! j)"
proof -
  let ?P = "\<lambda>j. strict_left_fold f (take (Suc j) src)"
  let ?J = "\<lambda>i st. length st = length d \<and> (\<forall>j < ti + i. st ! j = ?P j)
              \<and> (\<forall>j. ti + len \<le> j \<longrightarrow> st ! j = d ! j)"
  have "\<exists>d'. for_range 1 len
            (\<lambda>i d. and_then (load d (i - 1 + ti)) (\<lambda>v2.
                    and_then (load src (i + ti)) (\<lambda>v3. store d (i + ti) (f v2 v3)))) d = Inr d'
      \<and> ?J len d'"
  proof (rule for_range_invariant [where I = ?J])
    show "?J 1 d" using d by simp
    show "1 \<le> len" by (rule i1)
  next
    fix i st assume i: "1 \<le> i" "i < len" and J: "?J i st"
    obtain k where k: "i = Suc k" using i by (cases i) auto
    have in_src: "Suc (k + ti) < length src" using i k b by simp
    have in_st: "Suc (k + ti) < length st" "k + ti < length st" using i k b J by simp_all
    have v2: "st ! (k + ti) = ?P (k + ti)" using J k by (simp add: add.commute)
    have new: "f (st ! (k + ti)) (src ! Suc (k + ti)) = ?P (Suc (k + ti))"
      unfolding v2 by (rule prefix_fold_Suc [OF in_src, symmetric])
    have "and_then (load st (i - 1 + ti)) (\<lambda>v2.
                    and_then (load src (i + ti)) (\<lambda>v3. store st (i + ti) (f v2 v3)))
        = Inr (st[i + ti := ?P (i + ti)])"
      using in_st in_src new k by simp
    moreover have "?J (Suc i) (st[i + ti := ?P (i + ti)])"
      using J i b by (auto simp: nth_list_update less_Suc_eq add.commute)
    ultimately show "\<exists>s'. and_then (load st (i - 1 + ti)) (\<lambda>v2.
                    and_then (load src (i + ti)) (\<lambda>v3. store st (i + ti) (f v2 v3))) = Inr s'
        \<and> ?J (Suc i) s'"
      by blast
  qed
  then show ?thesis by auto
qed

lemma scan_phase3_dest:
  assumes T: "1 \<le> T" and n: "2 \<le> nJob" "nJob \<le> length src" "nJob \<le> length d0"
    and p2: "length p2 = nTiles (nJob - 1) T"
      "\<forall>t < nTiles (nJob - 1) T.
            p2 ! t = strict_left_fold f (take (Suc (tileIndex (nJob - 1) T t)) src)"
    and d0: "d0 ! 0 = src ! 0"
  shows "\<exists>d. scan_phase3 T src nJob f p2 d0 = Inr d
      \<and> length d = length d0
      \<and> (\<forall>j < nJob. d ! j = strict_left_fold f (take (Suc j) src))
      \<and> (\<forall>j. nJob \<le> j \<longrightarrow> d ! j = d0 ! j)"
proof -
  let ?m = "nJob - 1"
  let ?N = "nTiles ?m T"
  let ?P = "\<lambda>j. strict_left_fold f (take (Suc j) src)"
  let ?I = "\<lambda>t d. length d = length d0 \<and> (\<forall>j < tileIndex ?m T t + 1. d ! j = ?P j)
              \<and> (\<forall>j. nJob \<le> j \<longrightarrow> d ! j = d0 ! j)"
  let ?walk = "\<lambda>tile. (\<lambda>i d.
               and_then (load d (i - 1 + (tileIndex ?m T tile + 1))) (\<lambda>v2.
               and_then (load src (i + (tileIndex ?m T tile + 1))) (\<lambda>v3.
               store d (i + (tileIndex ?m T tile + 1)) (f v2 v3))))"
  have src: "src \<noteq> []" using n by auto
  have "\<exists>d. scan_phase3 T src nJob f p2 d0 = Inr d \<and> ?I ?N d"
    unfolding scan_phase3_def
  proof (rule for_range_invariant [where I = ?I])
    show "?I 0 d0" using d0 by (simp add: tileIndex_0 prefix_fold_0 [OF src])
    show "0 \<le> ?N" by simp
  next
    fix t st assume t: "t < ?N" and I: "?I t st"
    let ?ti = "tileIndex ?m T t + 1"
    let ?len = "tileSizeWithOffset ?m T t"
    have b: "tileIndex ?m T t + ?len \<le> ?m" by (rule tileIndex_end_le_nJob [OF T t])
    have pos: "1 \<le> ?len" using tileSizeWithOffset_pos [OF T t] by simp
    have ti: "?ti < nJob" "?ti + ?len \<le> nJob" using b pos n by simp_all
    have in_src: "Suc (tileIndex ?m T t) < length src" using ti n by simp
    have in_st: "Suc (tileIndex ?m T t) < length st" using ti n I by simp
    have v2: "p2 ! t = ?P (tileIndex ?m T t)" using p2 t by simp
    have new: "f (p2 ! t) (src ! ?ti) = ?P ?ti"
      unfolding v2 using prefix_fold_Suc [OF in_src, of f] by simp
    let ?d1 = "st[?ti := ?P ?ti]"
    have first: "and_then (load p2 t) (\<lambda>v2. and_then (load src ?ti) (\<lambda>v3.
              and_then (store st ?ti (f v2 v3)) (\<lambda>d. for_range 1 ?len (?walk t) d)))
          = for_range 1 ?len (?walk t) ?d1"
      using p2(1) t in_src in_st new by simp
    have d1: "\<forall>j < ?ti + 1. ?d1 ! j = ?P j"
      using I in_st by (auto simp: nth_list_update less_Suc_eq)
    have "\<exists>d'. for_range 1 ?len (?walk t) ?d1 = Inr d'
        \<and> length d' = length ?d1
        \<and> (\<forall>j < ?ti + ?len. d' ! j = ?P j)
        \<and> (\<forall>j. ?ti + ?len \<le> j \<longrightarrow> d' ! j = ?d1 ! j)"
    proof (rule scan_tile_walk [OF pos _ _ d1])
      show "?ti + ?len \<le> length src" using ti n by simp
      show "?ti + ?len \<le> length ?d1" using ti I n by simp
    qed
    then obtain d' where d': "for_range 1 ?len (?walk t) ?d1 = Inr d'"
      "length d' = length ?d1" "\<forall>j < ?ti + ?len. d' ! j = ?P j"
      "\<forall>j. ?ti + ?len \<le> j \<longrightarrow> d' ! j = ?d1 ! j"
      by blast
    have "?I (Suc t) d'"
    proof (intro conjI allI impI)
      show "length d' = length d0" using d'(2) I by simp
    next
      fix j assume "j < tileIndex ?m T (Suc t) + 1"
      then show "d' ! j = ?P j" using d'(3) by (simp add: tileIndex_Suc)
    next
      fix j assume j: "nJob \<le> j"
      then have "d' ! j = ?d1 ! j" using d'(4) ti by simp
      also have "\<dots> = st ! j" using j ti by simp
      finally show "d' ! j = d0 ! j" using I j by simp
    qed
    with first d'(1) show "\<exists>s'. and_then (load p2 t) (\<lambda>v2. and_then (load src ?ti) (\<lambda>v3.
              and_then (store st ?ti (f v2 v3)) (\<lambda>d. for_range 1 ?len (?walk t) d))) = Inr s'
          \<and> ?I (Suc t) s'"
      by (simp only: ) blast
  qed
  moreover have "tileIndex ?m T ?N + 1 = nJob" using tileIndex_nTiles [OF T, of ?m] n by simp
  ultimately show ?thesis by auto
qed

lemma scan_prefix_folds:
  assumes a: "associative f" and z: "zero_left_identity f" and T: "1 \<le> T"
    and n: "nJob \<le> length src" "nJob \<le> length dest"
  shows "\<exists>d. scan T dest src nJob sizeJob f = Inr d
      \<and> length d = length dest
      \<and> (\<forall>j < nJob. d ! j = strict_left_fold f (take (Suc j) src))
      \<and> (\<forall>j. nJob \<le> j \<longrightarrow> d ! j = dest ! j)"
proof -
  consider "nJob = 0" | "nJob = 1" | "2 \<le> nJob" by linarith
  then show ?thesis
  proof cases
    case 1
    then show ?thesis by (simp add: scan_def)
  next
    case 2
    then have "src \<noteq> []" "0 < length src" "0 < length dest" using n by auto
    then show ?thesis using 2 by (auto simp: scan_def prefix_fold_0 nth_list_update)
  next
    case 3
    let ?N = "nTiles (nJob - 1) T"
    let ?p0 = "(replicate ?N (0::'a))[0 := src ! 0]"
    let ?d0 = "dest[0 := src ! 0]"
    have N1: "1 \<le> ?N" using 3 T by (auto simp: nTiles_def min_sz_def)
    have p0: "length ?p0 = ?N" "?p0 ! 0 = src ! 0" using N1 by simp_all
    obtain p1 where p1: "scan_phase1 T src nJob sizeJob f ?p0 = Inr p1"
      "length p1 = ?N"
      "\<forall>k. Suc k < ?N \<longrightarrow>
            p1 ! Suc k = strict_left_fold f
              (take (tileSizeWithOffset (nJob - 1) T k) (drop (Suc (tileIndex (nJob - 1) T k)) src))"
      using scan_phase1_slots [OF a z T 3 n(1) p0(1)] by blast
    obtain p2 where p2: "scan_phase2 T nJob f p1 ?p0 = Inr p2"
      "length p2 = ?N"
      "\<forall>t < ?N. p2 ! t = strict_left_fold f (take (Suc (tileIndex (nJob - 1) T t)) src)"
      using scan_phase2_slots [OF a T 3 n(1) p1(2,3) p0] by blast
    have "0 < length dest" "0 < length src" using n 3 by linarith+
    then have d0: "nJob \<le> length ?d0" "?d0 ! 0 = src ! 0" using n by simp_all
    obtain d where d: "scan_phase3 T src nJob f p2 ?d0 = Inr d"
      "length d = length ?d0"
      "\<forall>j < nJob. d ! j = strict_left_fold f (take (Suc j) src)"
      "\<forall>j. nJob \<le> j \<longrightarrow> d ! j = ?d0 ! j"
      using scan_phase3_dest [OF T 3 n(1) d0(1) p2(2,3) d0(2)] by blast
    have "scan T dest src nJob sizeJob f = Inr d"
      using 3 \<open>0 < length dest\<close> \<open>0 < length src\<close> N1 p1(1) p2(1) d(1) by (simp add: scan_def)
    moreover have "\<forall>j. nJob \<le> j \<longrightarrow> d ! j = dest ! j" using d(4) 3 by simp
    ultimately show ?thesis using d(2,3) by simp
  qed
qed

lemma running_fold_length [simp]: "length (running_fold f acc xs) = length xs"
  by (induction xs arbitrary: acc) simp_all

lemma running_fold_nth:
  "j < length xs \<Longrightarrow> running_fold f acc xs ! j = foldl f acc (take (Suc j) xs)"
proof (induction xs arbitrary: acc j)
  case Nil
  then show ?case by simp
next
  case (Cons x xs)
  then show ?case by (cases j) simp_all
qed

lemma sequential_scan_length [simp]: "length (sequential_scan f xs) = length xs"
  by (cases xs) simp_all

lemma sequential_scan_nth:
  "j < length xs \<Longrightarrow> sequential_scan f xs ! j = strict_left_fold f (take (Suc j) xs)"
proof (cases xs)
  case Nil
  then show "j < length xs \<Longrightarrow> ?thesis" by simp
next
  case (Cons x xs')
  then show "j < length xs \<Longrightarrow> ?thesis" by (cases j) (simp_all add: running_fold_nth)
qed

lemma scan_sequential:
  assumes a: "associative f" and z: "zero_left_identity f" and T: "1 \<le> T"
    and n: "nJob \<le> length src" "nJob \<le> length dest"
  shows "scan T dest src nJob sizeJob f = Inr (sequential_scan f (take nJob src) @ drop nJob dest)"
proof -
  obtain d where d: "scan T dest src nJob sizeJob f = Inr d"
      "length d = length dest"
      "\<forall>j < nJob. d ! j = strict_left_fold f (take (Suc j) src)"
      "\<forall>j. nJob \<le> j \<longrightarrow> d ! j = dest ! j"
    using scan_prefix_folds [OF a z T n] by blast
  have "d = sequential_scan f (take nJob src) @ drop nJob dest"
  proof (rule nth_equalityI)
    show "length d = length (sequential_scan f (take nJob src) @ drop nJob dest)"
      using d(2) n by simp
  next
    fix i assume i: "i < length d"
    show "d ! i = (sequential_scan f (take nJob src) @ drop nJob dest) ! i"
    proof (cases "i < nJob")
      case True
      then have "take (Suc i) (take nJob src) = take (Suc i) src" by (simp add: min_def)
      then show ?thesis using True d(3) n by (simp add: nth_append sequential_scan_nth)
    next
      case False
      then show ?thesis using d(4) n i d(2) by (simp add: nth_append)
    qed
  qed
  then show ?thesis using d(1) by simp
qed

text \<open>
  Claim C2, as amended. For every associative operator of which the all-zero element
  is a left identity, every source buffer of \<open>n\<close> elements, a destination of at least
  \<open>n\<close> elements and at least one worker, \<^verbatim>\<open>inclusiveScan\<close> leaves in
  \<^verbatim>\<open>dest[0..n)\<close> the strict sequential left-to-right running fold of the source
  (and the rest of the destination as it was): \<^verbatim>\<open>dest[i]\<close> is the left fold of
  \<^verbatim>\<open>src[0..i]\<close>, inclusive, for every \<open>i < n\<close>.
\<close>

theorem inclusiveScan_is_running_fold:
  assumes "associative op" and "zero_left_identity op"
    and "1 \<le> maxThreads" and "length src = n" and "n \<le> length dest"
  shows "inclusiveScan maxThreads dest src n sizeJob op
           = Inr (sequential_scan op src @ drop n dest)
       \<and> (\<forall>i < n. (sequential_scan op src @ drop n dest) ! i
                    = strict_left_fold op (take (Suc i) src))"
proof -
  have "inclusiveScan maxThreads dest src n sizeJob op
           = Inr (sequential_scan op (take n src) @ drop n dest)"
    unfolding inclusiveScan_def using assms by (intro scan_sequential) simp_all
  then show ?thesis
    using assms by (simp add: nth_append sequential_scan_nth)
qed

theorem inclusiveScan_is_running_fold_witness:
  "associative ((+) :: int \<Rightarrow> int \<Rightarrow> int) \<and> zero_left_identity ((+) :: int \<Rightarrow> int \<Rightarrow> int)
   \<and> (1::nat) \<le> 3 \<and> length [1, 2, 3, 4, 5 :: int] = 5 \<and> 5 \<le> length [0, 0, 0, 0, 0 :: int]
   \<and> inclusiveScan 3 [0, 0, 0, 0, 0] [1, 2, 3, 4, 5 :: int] 5 4 (+) = Inr [1, 3, 6, 10, 15]"
proof -
  have a: "associative ((+) :: int \<Rightarrow> int \<Rightarrow> int)" by (simp add: associative_def)
  have z: "zero_left_identity ((+) :: int \<Rightarrow> int \<Rightarrow> int)" by (simp add: zero_left_identity_def)
  have t: "(1::nat) \<le> 3" by simp
  have l: "length [1, 2, 3, 4, 5 :: int] = 5" by simp
  have d: "5 \<le> length [0, 0, 0, 0, 0 :: int]" by simp
  show ?thesis
    using a z t l d inclusiveScan_is_running_fold [OF a z t l d, of 4] by simp
qed

text \<open>
  The claim as stated fails for the product on two workers: the slot of the second
  tile is seeded with the zero element by the tile's reduction, and the running
  products of \<open>[2, 3, 4]\<close> come out as \<open>[2, 6, 0]\<close>.
\<close>

theorem inclusiveScan_counterexample:
  "associative product
   \<and> inclusiveScan 2 [0, 0, 0] [2, 3, 4] 3 4 product = Inr [2, 6, 0]
   \<and> sequential_scan product [2, 3, 4] = [2, 6, 24]
   \<and> strict_left_fold product (take (Suc 2) [2, 3, 4]) = 24"
proof -
  have "associative product" by (simp add: associative_def product_def)
  moreover have "inclusiveScan 2 [0, 0, 0] [2, 3, 4] 3 4 product = Inr [2, 6, 0]"
    by (simp add: inclusiveScan_def scan_def scan_phase1_def scan_phase2_def scan_phase3_def
          reduceImpl_def nTiles_def min_sz_def tileSizeWithOffset_def tileSize_def
          leftOverJobs_def tileIndex_def getTileIndex_def for_range.simps product_def)
  ultimately show ?thesis by (simp add: product_def)
qed

lemma exclusiveScan_sequential:
  assumes a: "associative f" and z: "zero_left_identity f" and T: "1 \<le> T"
    and n: "1 \<le> n" "n \<le> length src" "n \<le> length dest"
  shows "exclusiveScan T dest src n sizeJob f
         = Inr (dest ! 0 # sequential_scan f (take (n - 1) src) @ drop n dest)"
proof -
  have m: "size_t_minus_1 n = n - 1" using n by (simp add: size_t_minus_1_def)
  have "scan T (drop 1 dest) src (n - 1) sizeJob f
        = Inr (sequential_scan f (take (n - 1) src) @ drop (n - 1) (drop 1 dest))"
    using n by (intro scan_sequential [OF a z T]) simp_all
  moreover have "take 1 dest = [dest ! 0]" using n by (cases dest) simp_all
  moreover have "drop (n - 1) (drop 1 dest) = drop n dest" using n by simp
  ultimately show ?thesis by (simp add: exclusiveScan_def m)
qed

text \<open>
  Claim C4, as amended. For every \<open>n \<ge> 2\<close>, every source buffer of \<open>n\<close> elements,
  destinations of at least \<open>n\<close> elements, at least one worker and every associative
  operator of which the all-zero element is a left identity: after
  \<^verbatim>\<open>exclusiveScan\<close>, \<^verbatim>\<open>dest[i]\<close> is what \<^verbatim>\<open>inclusiveScan\<close> of the same
  source leaves at \<open>i - 1\<close>, for every \<open>i\<close> in \<open>[1, n)\<close>, and \<^verbatim>\<open>dest[0]\<close> is as it
  was before the call.
\<close>

theorem exclusiveScan_shifts_inclusiveScan:
  assumes "associative op" and "zero_left_identity op" and "1 \<le> maxThreads"
    and "2 \<le> n" and "length src = n" and "n \<le> length dest" and "n \<le> length dest'"
  shows "exclusiveScan maxThreads dest src n sizeJob op
           = Inr (dest ! 0 # sequential_scan op (take (n - 1) src) @ drop n dest)
       \<and> inclusiveScan maxThreads dest' src n sizeJob op
           = Inr (sequential_scan op src @ drop n dest')
       \<and> (\<forall>i. 1 \<le> i \<longrightarrow> i < n \<longrightarrow>
             (dest ! 0 # sequential_scan op (take (n - 1) src) @ drop n dest) ! i
             = (sequential_scan op src @ drop n dest') ! (i - 1))
       \<and> (dest ! 0 # sequential_scan op (take (n - 1) src) @ drop n dest) ! 0 = dest ! 0"
proof -
  have e: "exclusiveScan maxThreads dest src n sizeJob op
           = Inr (dest ! 0 # sequential_scan op (take (n - 1) src) @ drop n dest)"
    using assms by (intro exclusiveScan_sequential) simp_all
  have i: "inclusiveScan maxThreads dest' src n sizeJob op
           = Inr (sequential_scan op (take n src) @ drop n dest')"
    unfolding inclusiveScan_def using assms by (intro scan_sequential) simp_all
  have "(dest ! 0 # sequential_scan op (take (n - 1) src) @ drop n dest) ! i
             = (sequential_scan op src @ drop n dest') ! (i - 1)"
    if i1: "1 \<le> i" and i2: "i < n" for i
  proof -
    obtain k where k: "i = Suc k" using i1 by (cases i) auto
    have kk: "k < n - 1" "k < n" using i2 k by simp_all
    have len: "length (take (n - 1) src) = n - 1" using assms by simp
    have "(dest ! 0 # sequential_scan op (take (n - 1) src) @ drop n dest) ! i
        = sequential_scan op (take (n - 1) src) ! k"
      using k kk len by (simp add: nth_append)
    also have "\<dots> = strict_left_fold op (take (Suc k) (take (n - 1) src))"
      using kk len by (intro sequential_scan_nth) simp
    also have "take (Suc k) (take (n - 1) src) = take (Suc k) src"
      using kk by (simp add: min_def)
    also have "strict_left_fold op (take (Suc k) src) = sequential_scan op src ! k"
      using kk assms by (intro sequential_scan_nth [symmetric]) simp
    also have "\<dots> = (sequential_scan op src @ drop n dest') ! (i - 1)"
      using k kk assms by (simp add: nth_append)
    finally show ?thesis .
  qed
  with e i assms show ?thesis by simp
qed

theorem exclusiveScan_shifts_inclusiveScan_witness:
  "associative ((+) :: int \<Rightarrow> int \<Rightarrow> int) \<and> zero_left_identity ((+) :: int \<Rightarrow> int \<Rightarrow> int)
   \<and> (1::nat) \<le> 3 \<and> (2::nat) \<le> 5 \<and> length [1, 2, 3, 4, 5 :: int] = 5
   \<and> 5 \<le> length [9, 0, 0, 0, 0 :: int] \<and> 5 \<le> length [0, 0, 0, 0, 0 :: int]
   \<and> exclusiveScan 3 [9, 0, 0, 0, 0] [1, 2, 3, 4, 5 :: int] 5 4 (+) = Inr [9, 1, 3, 6, 10]
   \<and> inclusiveScan 3 [0, 0, 0, 0, 0] [1, 2, 3, 4, 5 :: int] 5 4 (+) = Inr [1, 3, 6, 10, 15]"
proof -
  have a: "associative ((+) :: int \<Rightarrow> int \<Rightarrow> int)" by (simp add: associative_def)
  have z: "zero_left_identity ((+) :: int \<Rightarrow> int \<Rightarrow> int)" by (simp add: zero_left_identity_def)
  have t: "(1::nat) \<le> 3" and n: "(2::nat) \<le> 5" by simp_all
  have l: "length [1, 2, 3, 4, 5 :: int] = 5" by simp
  have d: "5 \<le> length [9, 0, 0, 0, 0 :: int]" and d': "5 \<le> length [0, 0, 0, 0, 0 :: int]"
    by simp_all
  show ?thesis
    using a z t n l d d' exclusiveScan_shifts_inclusiveScan [OF a z t n l d d', of 4] by simp
qed

text \<open>
  The claim as stated fails for the product on two workers at \<open>n = 4\<close>:
  \<^verbatim>\<open>exclusiveScan\<close> leaves 0 in \<^verbatim>\<open>dest[3]\<close>, and \<^verbatim>\<open>inclusiveScan\<close> of the
  same source leaves 24 at index 2.
\<close>

theorem exclusiveScan_counterexample:
  "associative product
   \<and> exclusiveScan 2 [9, 0, 0, 0] [2, 3, 4, 5] 4 4 product = Inr [9, 2, 6, 0]
   \<and> inclusiveScan 2 [0, 0, 0, 0] [2, 3, 4, 5] 4 4 product = Inr [2, 6, 24, 0]
   \<and> [9, 2, 6, 0 :: int] ! 3 \<noteq> [2, 6, 24, 0] ! (3 - 1)"
proof -
  have "associative product" by (simp add: associative_def product_def)
  moreover have "exclusiveScan 2 [9, 0, 0, 0] [2, 3, 4, 5] 4 4 product = Inr [9, 2, 6, 0]"
    by (simp add: exclusiveScan_def size_t_minus_1_def scan_def scan_phase1_def
          scan_phase2_def scan_phase3_def
          reduceImpl_def nTiles_def min_sz_def tileSizeWithOffset_def tileSize_def
          leftOverJobs_def tileIndex_def getTileIndex_def for_range.simps product_def)
  moreover have "inclusiveScan 2 [0, 0, 0, 0] [2, 3, 4, 5] 4 4 product = Inr [2, 6, 24, 0]"
    by (simp add: inclusiveScan_def scan_def scan_phase1_def scan_phase2_def scan_phase3_def
          reduceImpl_def nTiles_def min_sz_def tileSizeWithOffset_def tileSize_def
          leftOverJobs_def tileIndex_def getTileIndex_def for_range.simps product_def)
  ultimately show ?thesis by simp
qed

text \<open>
  Claim C9. With \<open>n = 0\<close>, \<^verbatim>\<open>inclusiveScan\<close> returns at once and leaves the
  destination as it was. \<^verbatim>\<open>exclusiveScan\<close> does not: \<^verbatim>\<open>nJob - 1\<close> wraps around
  to \<^verbatim>\<open>SIZE_MAX\<close>, \<^verbatim>\<open>scan\<close> does not take its early return, and the call
  reads the source out of bounds, at index 0 of an empty source and at index 1 of a
  source of one element.
\<close>

theorem scan_zero_elements:
  "inclusiveScan maxThreads dest src 0 sizeJob op = Inr dest
   \<and> size_t_minus_1 0 = SIZE_MAX
   \<and> exclusiveScan maxThreads dest [] 0 sizeJob op = Inl OutOfBounds
   \<and> exclusiveScan 1 [5, 6] [7 :: int] 0 4 (+) = Inl OutOfBounds"
proof -
  have "exclusiveScan 1 [5, 6] [7 :: int] 0 4 (+) = Inl OutOfBounds"
    by (simp add: exclusiveScan_def scan_def scan_phase1_def scan_phase2_def scan_phase3_def
          size_t_minus_1_def SIZE_MAX_def load_def store_def nTiles_def min_sz_def
          tileIndex_def getTileIndex_def for_range.simps)
  then show ?thesis
    by (simp add: inclusiveScan_def exclusiveScan_def scan_def size_t_minus_1_def SIZE_MAX_def
          load_def)
qed

section \<open>Failing loops and the cast to \<^verbatim>\<open>int\<close>\<close>

lemma int_of_size_t_small: "n \<le> INT_MAX \<Longrightarrow> int_of_size_t n = int n"
  by (simp add: int_of_size_t_def INT_MAX_def)

lemma for_range_fails:
  assumes "I i st" and "i \<le> j" and "j < n"
    and step: "\<And>k s. i \<le> k \<Longrightarrow> k < j \<Longrightarrow> I k s \<Longrightarrow> \<exists>s'. body k s = Inr s' \<and> I (Suc k) s'"
    and fail: "\<And>s. I j s \<Longrightarrow> body j s = Inl e"
  shows "for_range i n body st = Inl e"
  using assms(1,2,4)
proof (induction "j - i" arbitrary: i st)
  case 0
  then have "i = j" by simp
  then show ?case using fail [of st] 0 assms(3) by (subst for_range.simps) simp
next
  case (Suc d)
  then have lt: "i < j" by simp
  from Suc.prems(3) [OF le_refl lt Suc.prems(1)]
  obtain s1 where s1: "body i st = Inr s1" "I (Suc i) s1" by blast
  have "for_range (Suc i) n body s1 = Inl e"
  proof (rule Suc.hyps(1))
    show "d = j - Suc i" using Suc.hyps(2) by simp
    show "I (Suc i) s1" by (rule s1)
    show "Suc i \<le> j" using lt by simp
    show "\<And>k s. Suc i \<le> k \<Longrightarrow> k < j \<Longrightarrow> I k s \<Longrightarrow> \<exists>s'. body k s = Inr s' \<and> I (Suc k) s'"
      using Suc.prems(3) by simp
  qed
  then show ?case using lt assms(3) s1 by (subst for_range.simps) simp
qed

section \<open>Pack\<close>

lemma stable_compaction_append:
  "length xs = length ks \<Longrightarrow>
     stable_compaction (xs @ ys) (ks @ ls) = stable_compaction xs ks @ stable_compaction ys ls"
  by (induction xs ks rule: list_induct2) simp_all

lemma stable_compaction_take_Suc:
  assumes "i < length xs" and "i < length ks"
  shows "stable_compaction (take (Suc i) xs) (take (Suc i) ks)
         = stable_compaction (take i xs) (take i ks) @ (if ks ! i \<noteq> 0 then [xs ! i] else [])"
  using assms by (simp add: take_Suc_conv_app_nth stable_compaction_append)

lemma length_stable_compaction_le: "length (stable_compaction xs ks) \<le> length xs"
  by (induction xs ks rule: stable_compaction.induct) (simp_all add: le_SucI)

lemma pack_loop:
  assumes n: "n \<le> length src" "n \<le> length ks" "n \<le> length dest"
  shows "for_range 0 n
          (\<lambda>i (d, pos).
             and_then (load ks i) (\<lambda>keep.
             if keep \<noteq> 0
             then and_then (load src i) (\<lambda>v. and_then (store d pos v) (\<lambda>d. Inr (d, pos + 1)))
             else Inr (d, pos)))
          (dest, 0)
        = Inr (stable_compaction (take n src) (take n ks)
                 @ drop (length (stable_compaction (take n src) (take n ks))) dest,
               length (stable_compaction (take n src) (take n ks)))"
proof -
  let ?K = "\<lambda>i. stable_compaction (take i src) (take i ks)"
  let ?I = "\<lambda>i st. st = (?K i @ drop (length (?K i)) dest, length (?K i))"
  let ?body = "(\<lambda>i (d, pos).
             and_then (load ks i) (\<lambda>keep.
             if keep \<noteq> 0
             then and_then (load src i) (\<lambda>v. and_then (store d pos v) (\<lambda>d. Inr (d, pos + 1)))
             else Inr (d, pos)))"
  have "\<exists>s'. for_range 0 n ?body (dest, 0) = Inr s' \<and> ?I n s'"
  proof (rule for_range_invariant [where I = ?I])
    show "?I 0 (dest, 0)" by simp
    show "0 \<le> n" by simp
  next
    fix i st assume i: "i < n" and I: "?I i st"
    have le: "length (?K i) \<le> i" using length_stable_compaction_le [of "take i src" "take i ks"] by simp
    then have pos: "length (?K i) < length dest" using i n by simp
    have step: "?K (Suc i) = ?K i @ (if ks ! i \<noteq> 0 then [src ! i] else [])"
      using i n by (intro stable_compaction_take_Suc) simp_all
    have upd: "(?K i @ drop (length (?K i)) dest)[length (?K i) := src ! i]
        = (?K i @ [src ! i]) @ drop (Suc (length (?K i))) dest"
      using Cons_nth_drop_Suc [OF pos, symmetric] by (simp add: list_update_append)
    show "\<exists>s'. ?body i st = Inr s' \<and> ?I (Suc i) s'"
    proof (cases "ks ! i \<noteq> 0")
      case True
      then show ?thesis using I i n pos step upd by simp
    next
      case False
      then show ?thesis using I i n step by simp
    qed
  qed
  then show ?thesis by auto
qed

lemma stable_compaction_nths:
  "length xs = length ks \<Longrightarrow> stable_compaction xs ks = nths xs {i. i < length ks \<and> ks ! i \<noteq> 0}"
proof (induction xs ks rule: list_induct2)
  case Nil
  show ?case by simp
next
  case (Cons x xs k ks)
  have "{j. Suc j < Suc (length ks) \<and> (k # ks) ! Suc j \<noteq> 0} = {i. i < length ks \<and> ks ! i \<noteq> 0}"
    by simp
  then show ?case using Cons by (simp add: nths_Cons)
qed

lemma length_stable_compaction:
  assumes "length xs = length ks"
  shows "length (stable_compaction xs ks) = card {i. i < length ks \<and> ks ! i \<noteq> 0}"
proof -
  have "{i. i < length xs \<and> i \<in> {i. i < length ks \<and> ks ! i \<noteq> 0}} = {i. i < length ks \<and> ks ! i \<noteq> 0}"
    using assms by auto
  then show ?thesis by (simp add: stable_compaction_nths [OF assms] length_nths)
qed

lemma stable_compaction_all_false:
  "\<forall>i < length ks. ks ! i = 0 \<Longrightarrow> stable_compaction xs ks = []"
proof (induction xs ks rule: stable_compaction.induct)
  case (1 x xs k ks)
  then have "k = 0" and "\<forall>i < length ks. ks ! i = 0" by auto
  then show ?case using 1 by simp
qed simp_all

lemma stable_compaction_all_true:
  "length xs = length ks \<Longrightarrow> \<forall>i < length ks. ks ! i \<noteq> 0 \<Longrightarrow> stable_compaction xs ks = xs"
proof (induction xs ks rule: list_induct2)
  case Nil
  show ?case by simp
next
  case (Cons x xs k ks)
  then have "k \<noteq> 0" and "\<forall>i < length ks. ks ! i \<noteq> 0" by auto
  then show ?case using Cons by simp
qed

text \<open>
  Claim C7, as amended. For every count \<open>n\<close> with \<open>0 \<le> n \<le> INT_MAX\<close>, a source and
  a filter of \<open>n\<close> entries, a destination of at least \<open>n\<close> elements and a positive
  element size, \<^verbatim>\<open>pack\<close> returns the number of indices whose filter entry is
  truthy and leaves in \<^verbatim>\<open>dest[0..count)\<close> the elements at these indices, in
  source order (the rest of the destination is as it was). With no truthy entry the
  count is 0; with every entry truthy \<^verbatim>\<open>dest[0..n)\<close> is the source.
\<close>

theorem pack_stable_compaction:
  assumes "n \<le> INT_MAX" and "0 < sizeJob"
    and "length src = n" and "length fltr = n" and "n \<le> length dest"
  shows "pack dest src n sizeJob fltr
           = Inr (stable_compaction src fltr @ drop (length (stable_compaction src fltr)) dest,
                  length (stable_compaction src fltr))
       \<and> length (stable_compaction src fltr) = card {i. i < n \<and> fltr ! i \<noteq> 0}
       \<and> stable_compaction src fltr = nths src {i. i < n \<and> fltr ! i \<noteq> 0}
       \<and> ((\<forall>i < n. fltr ! i = 0) \<longrightarrow> stable_compaction src fltr = [])
       \<and> ((\<forall>i < n. fltr ! i \<noteq> 0) \<longrightarrow> stable_compaction src fltr = src)"
proof -
  have "pack dest src n sizeJob fltr
           = Inr (stable_compaction (take n src) (take n fltr)
                    @ drop (length (stable_compaction (take n src) (take n fltr))) dest,
                  length (stable_compaction (take n src) (take n fltr)))"
    using assms pack_loop [of n src fltr dest]
    by (simp add: pack_def int_of_size_t_small)
  moreover have len: "length src = length fltr" using assms by simp
  ultimately show ?thesis
    using assms length_stable_compaction [OF len] stable_compaction_nths [OF len]
      stable_compaction_all_false [of fltr src] stable_compaction_all_true [OF len]
    by simp
qed

theorem pack_stable_compaction_witness:
  "(4::nat) \<le> INT_MAX \<and> (0::nat) < 4 \<and> length [10, 20, 30, 40 :: int] = 4
   \<and> length [1, 0, 5, 0 :: int] = 4 \<and> 4 \<le> length [0, 0, 0, 0 :: int]
   \<and> pack [0, 0, 0, 0] [10, 20, 30, 40 :: int] 4 4 [1, 0, 5, 0] = Inr ([10, 30, 0, 0], 2)
   \<and> pack [0, 0, 0, 0] [10, 20, 30, 40 :: int] 4 4 [0, 0, 0, 0] = Inr ([0, 0, 0, 0], 0)
   \<and> pack [0, 0, 0, 0] [10, 20, 30, 40 :: int] 4 4 [1, 1, -1, 7] = Inr ([10, 20, 30, 40], 4)"
proof -
  have h: "(4::nat) \<le> INT_MAX" "(0::nat) < 4" "length [10, 20, 30, 40 :: int] = 4"
    by (simp_all add: INT_MAX_def)
  have f: "length [1, 0, 5, 0 :: int] = 4" "length [0, 0, 0, 0 :: int] = 4"
    "length [1, 1, -1, 7 :: int] = 4"
    by simp_all
  have d: "4 \<le> length [0, 0, 0, 0 :: int]" by simp
  have none: "\<forall>i < 4. [0, 0, 0, 0 :: int] ! i = 0"
    by (simp add: less_Suc_eq numeral_Bit0 [of num.One] numeral_Bit0 [of "num.Bit0 num.One"])
  have every: "\<forall>i < 4. [1, 1, -1, 7 :: int] ! i \<noteq> 0"
    by (simp add: less_Suc_eq numeral_Bit0 [of num.One] numeral_Bit0 [of "num.Bit0 num.One"])
  have mixed: "pack [0, 0, 0, 0] [10, 20, 30, 40 :: int] 4 4 [1, 0, 5, 0] = Inr ([10, 30, 0, 0], 2)"
    using pack_stable_compaction [OF h f(1) d] by simp
  have "stable_compaction [10, 20, 30, 40 :: int] [0, 0, 0, 0] = []"
    using pack_stable_compaction [OF h f(2) d] none by blast
  then have all_false:
    "pack [0, 0, 0, 0] [10, 20, 30, 40 :: int] 4 4 [0, 0, 0, 0] = Inr ([0, 0, 0, 0], 0)"
    using pack_stable_compaction [OF h f(2) d] by simp
  have "stable_compaction [10, 20, 30, 40 :: int] [1, 1, -1, 7] = [10, 20, 30, 40]"
    using pack_stable_compaction [OF h f(3) d] every by blast
  then have all_true:
    "pack [0, 0, 0, 0] [10, 20, 30, 40 :: int] 4 4 [1, 1, -1, 7] = Inr ([10, 20, 30, 40], 4)"
    using pack_stable_compaction [OF h f(3) d] by simp
  show ?thesis using h f(1) d mixed all_false all_true by simp
qed

text \<open>
  The claim as stated fails at \<open>n = 2\<^sup>3\<^sup>1\<close>, one more than \<^verbatim>\<open>INT_MAX\<close>, with every
  filter entry truthy: \<^verbatim>\<open>(int) nJob\<close> is negative, the assertion
  \<^verbatim>\<open>(int) nJob >= 0\<close> fails, and no \<^verbatim>\<open>int\<close> result could be the count.
\<close>

theorem pack_counterexample:
  "length (replicate 2147483648 (1::int)) = 2147483648
   \<and> int_of_size_t 2147483648 = - 2147483648
   \<and> pack (replicate 2147483648 0) (replicate 2147483648 (0::int)) 2147483648 4
        (replicate 2147483648 1) = Inl AssertionFailed"
  by (simp add: pack_def int_of_size_t_def)

section \<open>Gather\<close>

lemma gather_loop:
  assumes m: "m \<le> length ks" "m \<le> length dest"
    and valid: "\<forall>i < m. 0 \<le> ks ! i \<and> ks ! i < c \<and> ks ! i < int (length src)"
  shows "for_range 0 m
           (\<lambda>i d. and_then (load ks i) (\<lambda>k.
              if k \<ge> c then Inl InvalidFilterIndex
              else and_then (load_at src k) (\<lambda>v. store d i v)))
           dest
         = Inr (map (\<lambda>k. src ! nat k) (take m ks) @ drop m dest)"
proof -
  let ?G = "\<lambda>i. map (\<lambda>k. src ! nat k) (take i ks)"
  let ?I = "\<lambda>i d. d = ?G i @ drop i dest"
  let ?body = "(\<lambda>i d. and_then (load ks i) (\<lambda>k.
              if k \<ge> c then Inl InvalidFilterIndex
              else and_then (load_at src k) (\<lambda>v. store d i v)))"
  have "\<exists>d. for_range 0 m ?body dest = Inr d \<and> ?I m d"
  proof (rule for_range_invariant [where I = ?I])
    show "?I 0 dest" by simp
    show "0 \<le> m" by simp
  next
    fix i d assume i: "i < m" and I: "?I i d"
    have k: "0 \<le> ks ! i" "ks ! i < c" "ks ! i < int (length src)" using valid i by simp_all
    have il: "i < length dest" "i < length ks" using i m by simp_all
    have upd: "(?G i @ drop i dest)[i := src ! nat (ks ! i)] = ?G (Suc i) @ drop (Suc i) dest"
      using Cons_nth_drop_Suc [OF il(1), symmetric] il
      by (simp add: list_update_append take_Suc_conv_app_nth min_def)
    have "?body i d = Inr ((?G i @ drop i dest)[i := src ! nat (ks ! i)])"
      using I k il by (simp add: load_at_def min_def)
    then show "\<exists>s'. ?body i d = Inr s' \<and> ?I (Suc i) s'" using upd by simp
  qed
  then show ?thesis by auto
qed

lemma gather_loop_rejects:
  fixes dest :: "'a list"
  assumes m: "m \<le> length ks" "m \<le> length dest"
    and nonneg: "\<forall>i < m. 0 \<le> ks ! i"
    and bad: "j < m" "c \<le> ks ! j" and c: "c \<le> int (length src)"
  shows "for_range 0 m
           (\<lambda>i d. and_then (load ks i) (\<lambda>k.
              if k \<ge> c then Inl InvalidFilterIndex
              else and_then (load_at src k) (\<lambda>v. store d i v)))
           dest
         = Inl InvalidFilterIndex"
proof -
  let ?body = "(\<lambda>i d. and_then (load ks i) (\<lambda>k.
              if k \<ge> c then Inl InvalidFilterIndex
              else and_then (load_at src k) (\<lambda>v. store d i v)))"
  let ?I = "\<lambda>(i::nat) (d::'a list). length d = length dest"
  define j0 where "j0 = (LEAST i. i < m \<and> c \<le> ks ! i)"
  have j0: "j0 < m" "c \<le> ks ! j0"
    using LeastI [of "\<lambda>i. i < m \<and> c \<le> ks ! i" j] bad by (simp_all add: j0_def)
  have before: "ks ! i < c" if "i < j0" for i
    using not_less_Least [of i "\<lambda>i. i < m \<and> c \<le> ks ! i"] that j0(1) by (auto simp: j0_def)
  show ?thesis
  proof (rule for_range_fails [where I = ?I and j = j0])
    show "?I 0 dest" by simp
    show "0 \<le> j0" by simp
    show "j0 < m" by (rule j0)
  next
    fix i d assume i: "i < j0" and I: "?I i d"
    have "i < m" using i j0 by simp
    then have "0 \<le> ks ! i" "ks ! i < int (length src)" "i < length d" "i < length ks"
      using nonneg before [OF i] c m I by simp_all
    then show "\<exists>s'. ?body i d = Inr s' \<and> ?I (Suc i) s'"
      using before [OF i] I by (simp add: load_at_def)
  next
    fix d assume "?I j0 d"
    show "?body j0 d = Inl InvalidFilterIndex" using j0 m by simp
  qed
qed

text \<open>
  Claim C5, as amended. For a source of \<open>n \<le> INT_MAX\<close> elements, a filter of \<open>m\<close>
  entries, a destination of at least \<open>m\<close> elements and a positive element size: if
  every filter entry \<open>k\<close> satisfies \<open>0 \<le> k < n\<close>, \<^verbatim>\<open>gather\<close> sets
  \<^verbatim>\<open>dest[i] = src[filter[i]]\<close> for every \<open>i < m\<close>; if no entry is negative and some
  entry is \<open>\<ge> n\<close>, the call fails with the index check's \<^verbatim>\<open>exit(1)\<close>, and reads
  nothing out of bounds.
\<close>

theorem gather_valid_or_rejected:
  assumes "n \<le> INT_MAX" and "0 < sizeJob"
    and "length src = n" and "length fltr = m" and "m \<le> length dest"
  shows "((\<forall>i < m. 0 \<le> fltr ! i \<and> fltr ! i < int n) \<longrightarrow>
            gather maxThreads dest src n sizeJob fltr (int m)
              = Inr (map (\<lambda>k. src ! nat k) fltr @ drop m dest))
       \<and> ((\<forall>i < m. 0 \<le> fltr ! i) \<and> (\<exists>i < m. int n \<le> fltr ! i) \<longrightarrow>
            gather maxThreads dest src n sizeJob fltr (int m) = Inl InvalidFilterIndex)"
proof (intro conjI impI)
  assume v: "\<forall>i < m. 0 \<le> fltr ! i \<and> fltr ! i < int n"
  have "for_range 0 m
           (\<lambda>i d. and_then (load fltr i) (\<lambda>k.
              if k \<ge> int n then Inl InvalidFilterIndex
              else and_then (load_at src k) (\<lambda>v. store d i v)))
           dest
         = Inr (map (\<lambda>k. src ! nat k) (take m fltr) @ drop m dest)"
    using assms v by (intro gather_loop) simp_all
  then show "gather maxThreads dest src n sizeJob fltr (int m)
              = Inr (map (\<lambda>k. src ! nat k) fltr @ drop m dest)"
    using assms by (simp add: gather_def gatherImpl_def int_of_size_t_small)
next
  assume "(\<forall>i < m. 0 \<le> fltr ! i) \<and> (\<exists>i < m. int n \<le> fltr ! i)"
  then obtain j where nn: "\<forall>i < m. 0 \<le> fltr ! i" and j: "j < m" "int n \<le> fltr ! j" by blast
  have "for_range 0 m
           (\<lambda>i d. and_then (load fltr i) (\<lambda>k.
              if k \<ge> int n then Inl InvalidFilterIndex
              else and_then (load_at src k) (\<lambda>v. store d i v)))
           dest
         = Inl InvalidFilterIndex"
    using assms nn j by (intro gather_loop_rejects [where j = j]) simp_all
  then show "gather maxThreads dest src n sizeJob fltr (int m) = Inl InvalidFilterIndex"
    using assms by (simp add: gather_def gatherImpl_def int_of_size_t_small)
qed

theorem gather_valid_or_rejected_witness:
  "(3::nat) \<le> INT_MAX \<and> (0::nat) < 4 \<and> length [10, 20, 30 :: int] = 3
   \<and> length [2, 0, 1 :: int] = 3 \<and> length [2, 0, 5 :: int] = 3 \<and> 3 \<le> length [0, 0, 0 :: int]
   \<and> gather 4 [0, 0, 0] [10, 20, 30 :: int] 3 4 [2, 0, 1] 3 = Inr [30, 10, 20]
   \<and> gather 4 [0, 0, 0] [10, 20, 30 :: int] 3 4 [2, 0, 5] 3 = Inl InvalidFilterIndex"
proof -
  have h: "(3::nat) \<le> INT_MAX" "(0::nat) < 4" "length [10, 20, 30 :: int] = 3"
    by (simp_all add: INT_MAX_def)
  have f1: "length [2, 0, 1 :: int] = 3" and f2: "length [2, 0, 5 :: int] = 3"
    and d: "3 \<le> length [0, 0, 0 :: int]" by simp_all
  have v1: "\<forall>i < 3. 0 \<le> [2, 0, 1 :: int] ! i \<and> [2, 0, 1 :: int] ! i < int 3"
    by (simp add: less_Suc_eq numeral_3_eq_3)
  have v2: "(\<forall>i < 3. 0 \<le> [2, 0, 5 :: int] ! i) \<and> (\<exists>i < 3. int 3 \<le> [2, 0, 5 :: int] ! i)"
  proof
    show "\<forall>i < 3. 0 \<le> [2, 0, 5 :: int] ! i" by (simp add: less_Suc_eq numeral_3_eq_3)
    have "(2::nat) < 3 \<and> int 3 \<le> [2, 0, 5 :: int] ! 2" by simp
    then show "\<exists>i < 3. int 3 \<le> [2, 0, 5 :: int] ! i" by blast
  qed
  show ?thesis
    using h f1 f2 d v1 v2
      gather_valid_or_rejected [OF h f1 d, of 4]
      gather_valid_or_rejected [OF h f2 d, of 4]
    by simp
qed

text \<open>
  The claim as stated fails at the filter \<open>[-1]\<close>: the entry is smaller than \<open>n = 3\<close>,
  and the call neither sets \<^verbatim>\<open>dest[0]\<close> to an element of the source nor is
  rejected, it reads \<^verbatim>\<open>s[-1]\<close>. It also fails for a source of \<open>2\<^sup>3\<^sup>1\<close> elements
  and the valid filter \<open>[0]\<close>: the assertion \<^verbatim>\<open>(int) nJob >= 0\<close> fails.
\<close>

theorem gather_counterexample:
  "[-1 :: int] ! 0 < int 3
   \<and> gather 4 [0] [10, 20, 30 :: int] 3 4 [-1] 1 = Inl OutOfBounds
   \<and> [0 :: int] ! 0 < int 2147483648
   \<and> gather 4 [0] (replicate 2147483648 (0::int)) 2147483648 4 [0] 1 = Inl AssertionFailed"
  by (simp add: gather_def gatherImpl_def int_of_size_t_def load_at_def for_range.simps)

text \<open>
  Claim C10. The index check of \<^verbatim>\<open>gatherImpl\<close> rejects an entry \<open>k\<close> only if
  \<open>k \<ge> (int) nJob\<close>. For a filter whose one entry is negative, with a source of
  \<open>n \<le> INT_MAX\<close> elements, a destination that has room and a positive element
  size, the check lets the entry pass, the index is outside \<open>[0, n)\<close>, and the call
  ends in the out-of-range branch of the read \<^verbatim>\<open>s[filter[i]]\<close>, not in the check's
  \<^verbatim>\<open>exit(1)\<close>.
\<close>

theorem gather_negative_index_not_rejected:
  assumes "k < 0" and "n \<le> INT_MAX" and "0 < sizeJob"
    and "length src = n" and "1 \<le> length dest"
  shows "\<not> (k \<ge> int_of_size_t n)
       \<and> \<not> (0 \<le> k \<and> k < int n)
       \<and> load_at src k = Inl OutOfBounds
       \<and> gather maxThreads dest src n sizeJob [k] 1 = Inl OutOfBounds
       \<and> gather maxThreads dest src n sizeJob [k] 1 \<noteq> Inl InvalidFilterIndex"
  using assms
  by (simp add: gather_def gatherImpl_def int_of_size_t_small load_at_def for_range.simps)

theorem gather_negative_index_not_rejected_witness:
  "(-1 :: int) < 0 \<and> (3::nat) \<le> INT_MAX \<and> (0::nat) < 4 \<and> length [10, 20, 30 :: int] = 3
   \<and> 1 \<le> length [0 :: int]
   \<and> \<not> (-1 \<ge> int_of_size_t 3)
   \<and> load_at [10, 20, 30 :: int] (-1) = Inl OutOfBounds
   \<and> gather 4 [0] [10, 20, 30 :: int] 3 4 [-1] 1 = Inl OutOfBounds"
proof -
  have h: "(-1 :: int) < 0" "(3::nat) \<le> INT_MAX" "(0::nat) < 4" "length [10, 20, 30 :: int] = 3"
    "1 \<le> length [0 :: int]"
    by (simp_all add: INT_MAX_def)
  show ?thesis
    using h gather_negative_index_not_rejected [OF h, of 4] by simp
qed

section \<open>Scatter\<close>

lemma scatter_identity_loop:
  assumes n: "n \<le> length src" "n \<le> length dest" "n \<le> length ks"
    and ident: "\<forall>i < n. ks ! i = int i"
  shows "for_range 0 n
           (\<lambda>i d. and_then (load ks i) (\<lambda>k. and_then (load src i) (\<lambda>v. store_at d k v)))
           dest
         = Inr (take n src @ drop n dest)"
proof -
  let ?I = "\<lambda>i d. d = take i src @ drop i dest"
  let ?body = "(\<lambda>i d. and_then (load ks i) (\<lambda>k. and_then (load src i) (\<lambda>v. store_at d k v)))"
  have "\<exists>d. for_range 0 n ?body dest = Inr d \<and> ?I n d"
  proof (rule for_range_invariant [where I = ?I])
    show "?I 0 dest" by simp
    show "0 \<le> n" by simp
  next
    fix i d assume i: "i < n" and I: "?I i d"
    have il: "i < length dest" "i < length src" "i < length ks" using i n by simp_all
    have upd: "(take i src @ drop i dest)[i := src ! i] = take (Suc i) src @ drop (Suc i) dest"
      using Cons_nth_drop_Suc [OF il(1), symmetric] il
      by (simp add: list_update_append take_Suc_conv_app_nth min_def)
    have "?body i d = Inr ((take i src @ drop i dest)[i := src ! i])"
      using I il ident i by (simp add: store_at_def min_def)
    then show "\<exists>s'. ?body i d = Inr s' \<and> ?I (Suc i) s'" using upd by simp
  qed
  then show ?thesis by auto
qed

text \<open>
  Claim C8, as amended. For every count \<open>n\<close> with \<open>0 \<le> n \<le> INT_MAX\<close>, a source of
  \<open>n\<close> elements, a destination of at least \<open>n\<close> elements, a positive element size
  and the identity filter (\<open>filter[i] = i\<close> for every \<open>i < n\<close>), \<^verbatim>\<open>scatter\<close>
  makes \<^verbatim>\<open>dest[0..n)\<close> the source.
\<close>

theorem scatter_identity:
  assumes "n \<le> INT_MAX" and "0 < sizeJob"
    and "length src = n" and "n \<le> length dest"
    and "length fltr = n" and "\<forall>i < n. fltr ! i = int i"
  shows "scatter dest src n sizeJob fltr = Inr (src @ drop n dest)"
  using assms scatter_identity_loop [of n src dest fltr]
  by (simp add: scatter_def int_of_size_t_small)

theorem scatter_identity_witness:
  "(3::nat) \<le> INT_MAX \<and> (0::nat) < 4 \<and> length [10, 20, 30 :: int] = 3
   \<and> 3 \<le> length [0, 0, 0, 7 :: int] \<and> length [0, 1, 2 :: int] = 3
   \<and> scatter [0, 0, 0, 7] [10, 20, 30 :: int] 3 4 [0, 1, 2] = Inr [10, 20, 30, 7]"
proof -
  have h: "(3::nat) \<le> INT_MAX" "(0::nat) < 4" "length [10, 20, 30 :: int] = 3"
    "3 \<le> length [0, 0, 0, 7 :: int]" "length [0, 1, 2 :: int] = 3"
    by (simp_all add: INT_MAX_def)
  have i: "\<forall>i < 3. [0, 1, 2 :: int] ! i = int i"
    by (simp add: less_Suc_eq numeral_3_eq_3)
  show ?thesis
    using h scatter_identity [OF h i] by simp
qed

text \<open>
  The claim as stated fails at \<open>n = 2\<^sup>3\<^sup>1\<close>, one more than \<^verbatim>\<open>INT_MAX\<close> and the
  largest count whose identity filter has \<^verbatim>\<open>int\<close> entries: \<^verbatim>\<open>(int) nJob\<close> is
  negative and the assertion \<^verbatim>\<open>(int) nJob >= 0\<close> fails.
\<close>

theorem scatter_counterexample:
  "int_of_size_t 2147483648 = - 2147483648
   \<and> scatter (replicate 2147483648 0) (replicate 2147483648 (0::int)) 2147483648 4
        (map int [0..<2147483648]) = Inl AssertionFailed"
  by (simp add: scatter_def int_of_size_t_def del: upt_rec_numeral)

section \<open>Map, pipelines and farm\<close>

lemma apply_worker_Dest_Src:
  "i < length s \<Longrightarrow> i < length d \<Longrightarrow>
     apply_worker w Dest Src i (d, s) = Inr (d[i := w (s ! i)], s)"
  by (simp add: apply_worker_def buffer_of_def set_buffer_def)

lemma apply_worker_Dest_Dest:
  "i < length d \<Longrightarrow> apply_worker w Dest Dest i (d, s) = Inr (d[i := w (d ! i)], s)"
  by (simp add: apply_worker_def buffer_of_def set_buffer_def)

lemma map_prefix_update:
  assumes "i < length d" and "i < length a"
  shows "(map f (take i a) @ drop i d)[i := f (a ! i)] = map f (take (Suc i) a) @ drop (Suc i) d"
  using Cons_nth_drop_Suc [OF assms(1), symmetric] assms
  by (simp add: list_update_append take_Suc_conv_app_nth min_def)

lemma mapImpl_Dest_Src:
  assumes "1 \<le> T" and "n \<le> length s" and "n \<le> length d"
  shows "mapImpl Dest Src n w T (d, s) = Inr (map w (take n s) @ drop n d, s)"
proof -
  let ?I = "\<lambda>i mem. mem = (map w (take i s) @ drop i d, s)"
  have "\<exists>mem'. for_range 0 n (\<lambda>i mem. apply_worker w Dest Src i mem) (d, s) = Inr mem' \<and> ?I n mem'"
  proof (rule for_range_invariant [where I = ?I])
    show "?I 0 (d, s)" by simp
    show "0 \<le> n" by simp
  next
    fix i mem assume i: "i < n" and I: "?I i mem"
    have il: "i < length d" "i < length s" using i assms by simp_all
    then have "apply_worker w Dest Src i mem = Inr ((map w (take i s) @ drop i d)[i := w (s ! i)], s)"
      using I by (simp add: apply_worker_Dest_Src min_def)
    then show "\<exists>s'. apply_worker w Dest Src i mem = Inr s' \<and> ?I (Suc i) s'"
      using map_prefix_update [OF il, of w] by simp
  qed
  then show ?thesis using assms by (auto simp: mapImpl_def)
qed

lemma mapImpl_Dest_Dest:
  assumes "1 \<le> T" and "n \<le> length d"
  shows "mapImpl Dest Dest n w T (d, s) = Inr (map w (take n d) @ drop n d, s)"
proof -
  let ?I = "\<lambda>i mem. mem = (map w (take i d) @ drop i d, s)"
  have "\<exists>mem'. for_range 0 n (\<lambda>i mem. apply_worker w Dest Dest i mem) (d, s) = Inr mem' \<and> ?I n mem'"
  proof (rule for_range_invariant [where I = ?I])
    show "?I 0 (d, s)" by simp
    show "0 \<le> n" by simp
  next
    fix i mem assume i: "i < n" and I: "?I i mem"
    have il: "i < length d" "i < length d" using i assms by simp_all
    then have "apply_worker w Dest Dest i mem = Inr ((map w (take i d) @ drop i d)[i := w (d ! i)], s)"
      using I by (simp add: apply_worker_Dest_Dest min_def nth_append)
    then show "\<exists>s'. apply_worker w Dest Dest i mem = Inr s' \<and> ?I (Suc i) s'"
      using map_prefix_update [OF il, of w] by simp
  qed
  then show ?thesis using assms by (auto simp: mapImpl_def)
qed

lemma check_workerList_ok:
  assumes "nWorkers \<le> length workerList"
  shows "check_workerList workerList nWorkers = Inr ()"
proof -
  have "\<exists>u. for_range 0 nWorkers (\<lambda>i u. and_then (load workerList i) (\<lambda>w. Inr u)) () = Inr u
            \<and> True"
    by (rule for_range_invariant [where I = "\<lambda>i u. True"]) (use assms in simp_all)
  then show ?thesis by (simp add: check_workerList_def)
qed

lemma apply_stages_take_Suc:
  "j < length stages \<Longrightarrow>
     apply_stages (take (Suc j) stages) x = (stages ! j) (apply_stages (take j stages) x)"
  by (simp add: apply_stages_def take_Suc_conv_app_nth)

lemma apply_stages_take_1:
  "stages \<noteq> [] \<Longrightarrow> apply_stages (take 1 stages) x = (stages ! 0) x"
  by (cases stages) (simp_all add: apply_stages_def)

lemma mapPipeline_stages:
  assumes T: "1 \<le> T" and n: "n \<le> length s" "n \<le> length d"
    and K: "1 \<le> K" "K \<le> length stages"
  shows "and_then (load stages 0) (\<lambda>w.
          and_then (mapImpl Dest Src n w T (d, s)) (\<lambda>mem.
          for_range 1 K
            (\<lambda>j mem. and_then (load stages j) (\<lambda>w. mapImpl Dest Dest n w T mem))
            mem))
         = Inr (map (apply_stages (take K stages)) (take n s) @ drop n d, s)"
proof -
  let ?I = "\<lambda>j mem. mem = (map (apply_stages (take j stages)) (take n s) @ drop n d, s)"
  let ?body = "(\<lambda>j mem. and_then (load stages j) (\<lambda>w. mapImpl Dest Dest n w T mem))"
  have ne: "stages \<noteq> []" "0 < length stages" using K by auto
  have first: "mapImpl Dest Src n (stages ! 0) T (d, s)
      = Inr (map (apply_stages (take 1 stages)) (take n s) @ drop n d, s)"
    using mapImpl_Dest_Src [OF T n] apply_stages_take_1 [OF ne(1)] by simp
  have "\<exists>mem'. for_range 1 K ?body (map (apply_stages (take 1 stages)) (take n s) @ drop n d, s)
          = Inr mem' \<and> ?I K mem'"
  proof (rule for_range_invariant [where I = ?I])
    show "?I 1 (map (apply_stages (take 1 stages)) (take n s) @ drop n d, s)" by simp
    show "1 \<le> K" by (rule K)
  next
    fix j mem assume j: "j < K" and I: "?I j mem"
    let ?dj = "map (apply_stages (take j stages)) (take n s) @ drop n d"
    have jl: "j < length stages" using j K by simp
    have len: "n \<le> length ?dj" using n by simp
    have "?body j mem = mapImpl Dest Dest n (stages ! j) T (?dj, s)"
      using I jl by simp
    also have "\<dots> = Inr (map (stages ! j) (take n ?dj) @ drop n ?dj, s)"
      by (rule mapImpl_Dest_Dest [OF T len])
    also have "map (stages ! j) (take n ?dj) @ drop n ?dj
        = map (apply_stages (take (Suc j) stages)) (take n s) @ drop n d"
      using n by (simp add: apply_stages_take_Suc [OF jl] min_def)
    finally show "\<exists>s'. ?body j mem = Inr s' \<and> ?I (Suc j) s'" by simp
  qed
  then show ?thesis using ne first by auto
qed

lemma itemBound_item:
  assumes i: "i < length s" "i < length d" and K: "1 \<le> K" "K \<le> length stages"
  shows "and_then (load stages 0) (\<lambda>w.
           and_then (apply_worker w Dest Src i (d, s)) (\<lambda>mem.
           for_range 1 K
             (\<lambda>j mem. and_then (load stages j) (\<lambda>w. apply_worker w Dest Dest i mem))
             mem))
         = Inr (d[i := apply_stages (take K stages) (s ! i)], s)"
proof -
  let ?I = "\<lambda>j mem. mem = (d[i := apply_stages (take j stages) (s ! i)], s)"
  let ?body = "(\<lambda>j mem. and_then (load stages j) (\<lambda>w. apply_worker w Dest Dest i mem))"
  have ne: "stages \<noteq> []" "0 < length stages" using K by auto
  have first: "apply_worker (stages ! 0) Dest Src i (d, s)
      = Inr (d[i := apply_stages (take 1 stages) (s ! i)], s)"
    using apply_worker_Dest_Src [OF i] apply_stages_take_1 [OF ne(1)] by simp
  have "\<exists>mem'. for_range 1 K ?body (d[i := apply_stages (take 1 stages) (s ! i)], s)
          = Inr mem' \<and> ?I K mem'"
  proof (rule for_range_invariant [where I = ?I])
    show "?I 1 (d[i := apply_stages (take 1 stages) (s ! i)], s)" by simp
    show "1 \<le> K" by (rule K)
  next
    fix j mem assume j: "j < K" and I: "?I j mem"
    have jl: "j < length stages" using j K by simp
    have "?body j mem = Inr (d[i := (stages ! j) (apply_stages (take j stages) (s ! i))], s)"
      using I jl i by (simp add: apply_worker_Dest_Dest)
    then show "\<exists>s'. ?body j mem = Inr s' \<and> ?I (Suc j) s'"
      by (simp add: apply_stages_take_Suc [OF jl])
  qed
  then show ?thesis using ne first by auto
qed

lemma itemBound_loop:
  assumes n: "n \<le> length s" "n \<le> length d" and K: "1 \<le> K" "K \<le> length stages"
  shows "for_range 0 n
           (\<lambda>i mem.
              and_then (load stages 0) (\<lambda>w.
              and_then (apply_worker w Dest Src i mem) (\<lambda>mem.
              for_range 1 K
                (\<lambda>j mem. and_then (load stages j) (\<lambda>w. apply_worker w Dest Dest i mem))
                mem)))
           (d, s)
         = Inr (map (apply_stages (take K stages)) (take n s) @ drop n d, s)"
proof -
  let ?f = "apply_stages (take K stages)"
  let ?I = "\<lambda>i mem. mem = (map ?f (take i s) @ drop i d, s)"
  let ?body = "(\<lambda>i mem.
              and_then (load stages 0) (\<lambda>w.
              and_then (apply_worker w Dest Src i mem) (\<lambda>mem.
              for_range 1 K
                (\<lambda>j mem. and_then (load stages j) (\<lambda>w. apply_worker w Dest Dest i mem))
                mem)))"
  have "\<exists>mem'. for_range 0 n ?body (d, s) = Inr mem' \<and> ?I n mem'"
  proof (rule for_range_invariant [where I = ?I])
    show "?I 0 (d, s)" by simp
    show "0 \<le> n" by simp
  next
    fix i mem assume i: "i < n" and I: "?I i mem"
    let ?di = "map ?f (take i s) @ drop i d"
    have il: "i < length d" "i < length s" using i n by simp_all
    have il': "i < length s" "i < length ?di" using il by simp_all
    have "?body i mem = Inr (?di[i := ?f (s ! i)], s)"
      unfolding I by (rule itemBound_item [OF il' K])
    then show "\<exists>s'. ?body i mem = Inr s' \<and> ?I (Suc i) s'"
      using map_prefix_update [OF il, of ?f] by simp
  qed
  then show ?thesis by auto
qed

text \<open>
  Claim C6, as amended. For every worker count of at least one, every source of \<open>n\<close>
  elements and a destination of at least \<open>n\<close> elements:
  for every non-empty list of stage operators, every item count \<open>n \<le> INT_MAX\<close> and a
  positive element size, the stage-major pipeline \<^verbatim>\<open>mapPipeline\<close> and the
  item-major pipeline \<^verbatim>\<open>itemBoundPipeline\<close> leave
  \<open>stage\<^sub>K (\<dots> (stage\<^sub>1 (src[i])))\<close> in \<^verbatim>\<open>dest[i]\<close> for every \<open>i < n\<close>;
  \<^verbatim>\<open>farm\<close> leaves \<open>worker (src[i])\<close> in \<^verbatim>\<open>dest[i]\<close> for every \<open>i < n\<close>, for
  every item count and element size; the source and the rest of the destination are
  as they were. With no stage (\<open>nWorkers = 0\<close>), \<open>n \<le> INT_MAX\<close> and a positive
  element size, both pipelines return and leave the whole memory as it was, whatever
  the buffers and the worker count.
\<close>

theorem pipelines_apply_stages:
  "(workerList \<noteq> [] \<and> nWorkers = length workerList \<and> 1 \<le> maxThreads
      \<and> n \<le> INT_MAX \<and> 0 < sizeJob \<and> length src = n \<and> n \<le> length dest \<longrightarrow>
        mapPipeline maxThreads (dest, src) n sizeJob workerList nWorkers
          = Inr (map (apply_stages workerList) src @ drop n dest, src)
      \<and> itemBoundPipeline maxThreads (dest, src) n sizeJob workerList nWorkers
          = Inr (map (apply_stages workerList) src @ drop n dest, src)
      \<and> (\<forall>i < n. (map (apply_stages workerList) src @ drop n dest) ! i
                   = foldl (\<lambda>v stage. stage v) (src ! i) workerList))
   \<and> (1 \<le> maxThreads \<and> length src = n \<and> n \<le> length dest \<longrightarrow>
        farm maxThreads (dest, src) n sizeJob worker farmWorkers
          = Inr (map (apply_stages [worker]) src @ drop n dest, src)
      \<and> (\<forall>i < n. (map (apply_stages [worker]) src @ drop n dest) ! i = worker (src ! i)))
   \<and> (n \<le> INT_MAX \<and> 0 < sizeJob \<longrightarrow>
        mapPipeline maxThreads mem n sizeJob workerList 0 = Inr mem
      \<and> itemBoundPipeline maxThreads mem n sizeJob workerList 0 = Inr mem)"
proof (intro conjI impI)
  assume h: "workerList \<noteq> [] \<and> nWorkers = length workerList \<and> 1 \<le> maxThreads
      \<and> n \<le> INT_MAX \<and> 0 < sizeJob \<and> length src = n \<and> n \<le> length dest"
  then have K: "1 \<le> nWorkers" "nWorkers \<le> length workerList" "nWorkers \<noteq> 0"
    by (simp_all add: Suc_le_eq)
  have T: "1 \<le> maxThreads" using h by simp
  have n: "n \<le> length src" "n \<le> length dest" using h by simp_all
  have c: "check_workerList workerList (length workerList) = Inr ()"
    by (rule check_workerList_ok [OF le_refl])
  show "mapPipeline maxThreads (dest, src) n sizeJob workerList nWorkers
           = Inr (map (apply_stages workerList) src @ drop n dest, src)"
    using mapPipeline_stages [OF T n K(1,2)] h K(3)
    by (simp add: mapPipeline_def int_of_size_t_small c)
  show "itemBoundPipeline maxThreads (dest, src) n sizeJob workerList nWorkers
           = Inr (map (apply_stages workerList) src @ drop n dest, src)"
    using itemBound_loop [OF n K(1,2)] h K(3)
    by (simp add: itemBoundPipeline_def int_of_size_t_small c)
  show "\<forall>i < n. (map (apply_stages workerList) src @ drop n dest) ! i
                    = foldl (\<lambda>v stage. stage v) (src ! i) workerList"
    using h by (simp add: nth_append apply_stages_def)
next
  assume h: "1 \<le> maxThreads \<and> length src = n \<and> n \<le> length dest"
  then have T: "1 \<le> maxThreads" and n: "n \<le> length src" "n \<le> length dest" by simp_all
  show "farm maxThreads (dest, src) n sizeJob worker farmWorkers
           = Inr (map (apply_stages [worker]) src @ drop n dest, src)"
    using mapImpl_Dest_Src [OF T n, of worker] h
    by (simp add: farm_def map'_def apply_stages_def)
  show "\<forall>i < n. (map (apply_stages [worker]) src @ drop n dest) ! i = worker (src ! i)"
    using h by (simp add: nth_append apply_stages_def)
next
  assume h: "n \<le> INT_MAX \<and> 0 < sizeJob"
  have c: "check_workerList workerList 0 = Inr ()"
    by (simp add: check_workerList_def)
  show "mapPipeline maxThreads mem n sizeJob workerList 0 = Inr mem"
    using h by (simp add: mapPipeline_def int_of_size_t_small c)
  show "itemBoundPipeline maxThreads mem n sizeJob workerList 0 = Inr mem"
    using h by (simp add: itemBoundPipeline_def int_of_size_t_small c)
qed

theorem pipelines_apply_stages_witness:
  "[(\<lambda>x. x + 1), (\<lambda>x. x * 2 :: int)] \<noteq> [] \<and> (2::nat) = length [(\<lambda>x. x + 1), (\<lambda>x. x * 2 :: int)]
   \<and> (1::nat) \<le> 4 \<and> (3::nat) \<le> INT_MAX \<and> (0::nat) < 4
   \<and> length [10, 20, 30 :: int] = 3 \<and> 3 \<le> length [0, 0, 0, 7 :: int]
   \<and> mapPipeline 4 ([0, 0, 0, 7], [10, 20, 30]) 3 4 [(\<lambda>x. x + 1), (\<lambda>x. x * 2 :: int)] 2
        = Inr ([22, 42, 62, 7], [10, 20, 30])
   \<and> itemBoundPipeline 4 ([0, 0, 0, 7], [10, 20, 30]) 3 4 [(\<lambda>x. x + 1), (\<lambda>x. x * 2 :: int)] 2
        = Inr ([22, 42, 62, 7], [10, 20, 30])
   \<and> farm 4 ([0, 0, 0, 7], [10, 20, 30]) 3 4 (\<lambda>x. x + 1 :: int) 9
        = Inr ([11, 21, 31, 7], [10, 20, 30])
   \<and> mapPipeline 4 ([0, 0, 0, 7], [10, 20, 30 :: int]) 3 4 [] 0
        = Inr ([0, 0, 0, 7], [10, 20, 30])
   \<and> itemBoundPipeline 4 ([0, 0, 0, 7], [10, 20, 30 :: int]) 3 4 [] 0
        = Inr ([0, 0, 0, 7], [10, 20, 30])"
proof -
  have h: "[(\<lambda>x. x + 1), (\<lambda>x. x * 2 :: int)] \<noteq> []"
    "(2::nat) = length [(\<lambda>x. x + 1), (\<lambda>x. x * 2 :: int)]"
    "(1::nat) \<le> 4" "(3::nat) \<le> INT_MAX" "(0::nat) < 4"
    "length [10, 20, 30 :: int] = 3" "3 \<le> length [0, 0, 0, 7 :: int]"
    by (simp_all add: INT_MAX_def)
  note stages = pipelines_apply_stages
    [of "[(\<lambda>x. x + 1), (\<lambda>x. x * 2 :: int)]" 2 4 3 4 "[10, 20, 30]" "[0, 0, 0, 7]"
        "\<lambda>x. x + 1" 9 "([0, 0, 0, 7], [10, 20, 30])"]
  note none = pipelines_apply_stages
    [of "[]" 0 4 3 4 "[10, 20, 30 :: int]" "[0, 0, 0, 7]" id 9 "([0, 0, 0, 7], [10, 20, 30])"]
  have 1: "mapPipeline 4 ([0, 0, 0, 7], [10, 20, 30]) 3 4 [(\<lambda>x. x + 1), (\<lambda>x. x * 2 :: int)] 2
        = Inr ([22, 42, 62, 7], [10, 20, 30])"
    "itemBoundPipeline 4 ([0, 0, 0, 7], [10, 20, 30]) 3 4 [(\<lambda>x. x + 1), (\<lambda>x. x * 2 :: int)] 2
        = Inr ([22, 42, 62, 7], [10, 20, 30])"
    "farm 4 ([0, 0, 0, 7], [10, 20, 30]) 3 4 (\<lambda>x. x + 1 :: int) 9
        = Inr ([11, 21, 31, 7], [10, 20, 30])"
    using h stages by (simp_all add: apply_stages_def)
  have 2: "mapPipeline 4 ([0, 0, 0, 7], [10, 20, 30 :: int]) 3 4 [] 0
        = Inr ([0, 0, 0, 7], [10, 20, 30])"
    "itemBoundPipeline 4 ([0, 0, 0, 7], [10, 20, 30 :: int]) 3 4 [] 0
        = Inr ([0, 0, 0, 7], [10, 20, 30])"
    using h none by simp_all
  show ?thesis using h 1 2 by simp
qed

text \<open>
  The claim as stated fails for the empty stage list: both pipelines return at
  \<^verbatim>\<open>if (nWorkers == 0) return\<close> and leave the destination as it was, while no
  stage applied to \<^verbatim>\<open>src[i]\<close> is \<^verbatim>\<open>src[i]\<close>. It also fails for \<open>2\<^sup>3\<^sup>1\<close> items
  and one stage: in both pipelines the assertion \<^verbatim>\<open>(int) nJob >= 0\<close> fails.
\<close>

theorem pipelines_counterexample:
  "mapPipeline 4 ([0, 0, 0], [10, 20, 30 :: int]) 3 4 [] 0 = Inr ([0, 0, 0], [10, 20, 30])
   \<and> itemBoundPipeline 4 ([0, 0, 0], [10, 20, 30 :: int]) 3 4 [] 0 = Inr ([0, 0, 0], [10, 20, 30])
   \<and> map (apply_stages []) [10, 20, 30 :: int] = [10, 20, 30]
   \<and> mapPipeline 4 (replicate 2147483648 0, replicate 2147483648 (0::int)) 2147483648 4 [id] 1
        = Inl AssertionFailed
   \<and> itemBoundPipeline 4 (replicate 2147483648 0, replicate 2147483648 (0::int)) 2147483648 4 [id] 1
        = Inl AssertionFailed"
  by (simp add: mapPipeline_def itemBoundPipeline_def check_workerList_def int_of_size_t_def
        apply_stages_def for_range.simps)


end
